theory Spec2Isabelle
  imports Complex_Main "HOL-Library.Sublist"
begin

section \<open>JavaScript numbers\<close>

text \<open>
  The amounts of the invoice lines and the total are values of the type \<^verbatim>\<open>number\<close>:
  IEEE 754 binary64. The server adds them (line 250) and prints them in template literals
  (lines 60, 66, 276 and 340), so the model has the values of the Number type, its addition
  and its conversion to a string, as ECMAScript defines them. A finite number other than
  \<open>-0\<close> is held as the rational it denotes.
\<close>

datatype number = NaN | PosInf | NegInf | NegZero | Fin rat

text \<open>
  \<open>ndigits b n\<close> is the number of digits of \<open>n\<close> in base \<open>b\<close>, and \<open>ilog b x\<close> the
  integer \<open>t\<close> with \<open>b\<^sup>t \<le> x < b\<^sup>t\<^sup>+\<^sup>1\<close>, for positive \<open>x\<close>.
\<close>

function ndigits :: "int \<Rightarrow> int \<Rightarrow> nat" where
  "ndigits b n = (if n \<le> 0 \<or> b < 2 then 0 else Suc (ndigits b (n div b)))"
  by pat_completeness auto

termination
  by (relation "measure (\<lambda>(b, n). nat n)") (auto intro: int_div_less_self)

declare ndigits.simps [simp del]

definition ilog :: "int \<Rightarrow> rat \<Rightarrow> int" where
  "ilog b x =
     (let (p, d) = quotient_of x;
          t = int (ndigits b p) - int (ndigits b d)
      in if of_int b powi t \<le> x then t else t - 1)"

definition round_half_even :: "rat \<Rightarrow> int" where
  "round_half_even r =
     (let f = \<lfloor>r\<rfloor>; d = r - of_int f
      in if d < 1 / 2 then f
         else if 1 / 2 < d then f + 1
         else if even f then f else f + 1)"

text \<open>
  The Number value for a rational \<open>q\<close>: \<open>q\<close> rounded to the nearest binary64 value, a
  tie going to the value with the even significand. The significand has 53 bits, so in the
  binade \<open>2\<^sup>e \<le> \<bar>q\<bar> < 2\<^sup>e\<^sup>+\<^sup>1\<close> the values are the multiples of \<open>2\<^sup>e\<^sup>-\<^sup>5\<^sup>2\<close>; below
  \<open>2\<^sup>-\<^sup>1\<^sup>0\<^sup>2\<^sup>2\<close> they are the multiples of \<open>2\<^sup>-\<^sup>1\<^sup>0\<^sup>7\<^sup>4\<close>; and a magnitude that rounds to
  \<open>2\<^sup>1\<^sup>0\<^sup>2\<^sup>4\<close> or more becomes an infinity. A negative \<open>q\<close> that rounds to zero gives
  \<open>-0\<close>.
\<close>

definition fl :: "rat \<Rightarrow> number" where
  "fl q =
     (if q = 0 then Fin 0
      else let a = \<bar>q\<bar>;
               e = max (ilog 2 a) (- 1022);
               u = 2 powi (e - 52);
               v = of_int (round_half_even (a / u)) * u
           in if 1024 \<le> ilog 2 v then (if q < 0 then NegInf else PosInf)
              else if v = 0 \<and> q < 0 then NegZero
              else Fin (if q < 0 then - v else v))"

text \<open>
  \<^verbatim>\<open>x + y\<close> on numbers (Number::add): NaN is absorbing, infinities of opposite sign give
  NaN, \<open>-0 + -0\<close> is \<open>-0\<close>, and the sum of two finite numbers is their exact sum, rounded.
  The literal \<^verbatim>\<open>0\<close> is \<open>+0\<close>.
\<close>

instantiation number :: "{zero, plus}"
begin

definition zero_number :: number where
  "zero_number = Fin 0"

fun plus_number :: "number \<Rightarrow> number \<Rightarrow> number" where
  "plus_number NaN y = NaN"
| "plus_number x NaN = NaN"
| "plus_number PosInf NegInf = NaN"
| "plus_number NegInf PosInf = NaN"
| "plus_number PosInf y = PosInf"
| "plus_number x PosInf = PosInf"
| "plus_number NegInf y = NegInf"
| "plus_number x NegInf = NegInf"
| "plus_number NegZero y = y"
| "plus_number x NegZero = x"
| "plus_number (Fin a) (Fin b) = fl (a + b)"

instance ..

end

text \<open>
  \<^verbatim>\<open>`${x}`\<close> on a number is Number::toString with radix 10. For a positive finite \<open>x\<close> it
  takes the integers \<open>n\<close>, \<open>k\<close> and \<open>s\<close> with \<open>k \<ge> 1\<close>, \<open>10\<^sup>k\<^sup>-\<^sup>1 \<le> s < 10\<^sup>k\<close> and
  \<open>s \<times> 10\<^sup>n\<^sup>-\<^sup>k\<close> rounding to \<open>x\<close>, with \<open>k\<close> as small as possible, and among these the \<open>s\<close>
  for which \<open>s \<times> 10\<^sup>n\<^sup>-\<^sup>k\<close> is closest to \<open>x\<close> (the even one of two). The digits of \<open>s\<close> are
  then written without an exponent when \<open>-6 < n \<le> 21\<close>, and as
  \<^verbatim>\<open>d.ddde+x\<close> otherwise.

  \<open>decimal s\<close> is the decimal representation of a natural number. \<open>shortest\<close> tries
  \<open>k = 1, 2, \<dots>\<close>; with \<open>n\<close> decimal digits before the point in \<open>x\<close>, the candidates of
  \<open>k\<close> digits next to \<open>x\<close> are \<open>\<lfloor>x / 10\<^sup>n\<^sup>-\<^sup>k\<rfloor>\<close> and its successor. Seventeen digits always
  suffice, which bounds the search. The successor may be \<open>10\<^sup>k\<close>, which \<open>strip_zeros\<close>
  brings back to the digit 1 with the exponent raised.
\<close>

function decimal :: "int \<Rightarrow> string" where
  "decimal n =
     (if n < 10 then [''0123456789'' ! nat n]
      else decimal (n div 10) @ [''0123456789'' ! nat (n mod 10)])"
  by pat_completeness auto

termination
  by (relation "measure nat") auto

declare decimal.simps [simp del]

fun shortest :: "nat \<Rightarrow> rat \<Rightarrow> int \<Rightarrow> nat \<Rightarrow> int \<times> int" where
  "shortest fuel x n k =
     (let e = n - int k;
          t = x / 10 powi e;
          lo = \<lfloor>t\<rfloor>;
          hi = lo + 1;
          vlo = (fl (of_int lo * 10 powi e) = Fin x);
          vhi = (fl (of_int hi * 10 powi e) = Fin x)
      in if vlo \<and> vhi
         then (if t - of_int lo < of_int hi - t then lo
               else if of_int hi - t < t - of_int lo then hi
               else if even lo then lo else hi, e)
         else if vlo then (lo, e)
         else if vhi then (hi, e)
         else (case fuel of 0 \<Rightarrow> (lo, e) | Suc f \<Rightarrow> shortest f x n (Suc k)))"

declare shortest.simps [simp del]

fun strip_zeros :: "nat \<Rightarrow> int \<times> int \<Rightarrow> int \<times> int" where
  "strip_zeros fuel (s, e) =
     (case fuel of
        0 \<Rightarrow> (s, e)
      | Suc f \<Rightarrow> if s \<noteq> 0 \<and> s mod 10 = 0 then strip_zeros f (s div 10, e + 1) else (s, e))"

declare strip_zeros.simps [simp del]

definition format :: "string \<Rightarrow> int \<Rightarrow> string" where
  "format ds n =
     (let k = int (length ds)
      in if k \<le> n \<and> n \<le> 21 then ds @ replicate (nat (n - k)) (CHR ''0'')
         else if 0 < n \<and> n \<le> 21 then take (nat n) ds @ ''.'' @ drop (nat n) ds
         else if - 6 < n \<and> n \<le> 0 then ''0.'' @ replicate (nat (- n)) (CHR ''0'') @ ds
         else (if k = 1 then ds else take 1 ds @ ''.'' @ drop 1 ds)
              @ ''e'' @ (if n - 1 < 0 then ''-'' else ''+'') @ decimal \<bar>n - 1\<bar>)"

definition toString_pos :: "rat \<Rightarrow> string" where
  "toString_pos x =
     (let (s, e) = strip_zeros 17 (shortest 16 x (ilog 10 x + 1) 1);
          ds = decimal s
      in format ds (int (length ds) + e))"

fun toString :: "number \<Rightarrow> string" where
  "toString NaN = ''NaN''"
| "toString PosInf = ''Infinity''"
| "toString NegInf = ''-Infinity''"
| "toString NegZero = ''0''"
| "toString (Fin q) =
     (if q = 0 then ''0''
      else if q < 0 then ''-'' @ toString_pos (- q)
      else toString_pos q)"

declare toString.simps [simp del]

text \<open>The decimal notation of an integer, to compare with.\<close>

definition show_int :: "int \<Rightarrow> string" where
  "show_int z = (if z < 0 then ''-'' @ decimal (- z) else decimal z)"

section \<open>Data model of \<^verbatim>\<open>invoice-server.ts\<close>\<close>

text \<open>
  The status of a stored approval entry is the string union
  \<^verbatim>\<open>'pending' | 'approved' | 'rejected' | 'processing' | 'completed'\<close>.
\<close>

datatype status = pending | approved | rejected | processing | completed

fun status_text :: "status \<Rightarrow> string" where
  "status_text pending = ''pending''"
| "status_text approved = ''approved''"
| "status_text rejected = ''rejected''"
| "status_text processing = ''processing''"
| "status_text completed = ''completed''"

text \<open>
  \<^verbatim>\<open>interface InvoiceLine\<close> and \<^verbatim>\<open>interface Invoice\<close>. The field \<^verbatim>\<open>id\<close> is named
  \<open>inv_id\<close> here. The fields have the types that the interfaces declare.
\<close>

record InvoiceLine =
  item :: string
  amount :: number
  description :: string

record Invoice =
  inv_id :: string
  lines :: "InvoiceLine list"
  totalAmount :: number

text \<open>The value type of the map \<^verbatim>\<open>approvals\<close>; \<^verbatim>\<open>result\<close> is an optional field.\<close>

record approval =
  status :: status
  invoice :: Invoice
  result :: "string option"

subsection \<open>Joining strings\<close>

text \<open>\<^verbatim>\<open>results.join(sep)\<close>.\<close>

fun join :: "string \<Rightarrow> string list \<Rightarrow> string" where
  "join sep [] = []"
| "join sep [x] = x"
| "join sep (x # y # ys) = x @ sep @ join sep (y # ys)"

subsection \<open>The store and the running executions\<close>

text \<open>
  The entries of \<^verbatim>\<open>approvals\<close> are objects that the handlers and the workflow mutate
  through references, and \<^verbatim>\<open>processInvoice\<close> keeps the reference \<^verbatim>\<open>finalState\<close> while it
  awaits the payments. The model therefore has a heap \<open>objs\<close> of entries, addressed by
  natural numbers, and the map \<open>approvals\<close> from invoice ids to addresses;
  \<open>next_ref\<close> is the first unused address.

  An execution of \<^verbatim>\<open>processInvoice\<close> is a coroutine: between two \<^verbatim>\<open>await\<close>s it runs
  without interruption, and at an \<^verbatim>\<open>await\<close> the tool handlers and the other executions
  may run. Its control point is
  \<^item> \<open>Start\<close>: registered with the SDK, body not entered yet;
  \<^item> \<open>Polling startTime\<close>: asleep in the polling loop (line 111);
  \<^item> \<open>Paying r results rest\<close>: awaiting \<^verbatim>\<open>ctx.run(processPayment, line)\<close> for the first
    line of \<open>rest\<close>, holding \<^verbatim>\<open>finalState\<close> = \<open>r\<close> and the \<^verbatim>\<open>results\<close> pushed so far;
  \<^item> \<open>Returned s\<close>: returned \<open>s\<close>, the \<^verbatim>\<open>.then\<close> callback of the submit handler not run yet;
  \<^item> \<open>Finished s\<close>: the callback has run.
  \<open>ctx_runs\<close> lists the lines on which this execution has called
  \<^verbatim>\<open>ctx.run(processPayment, line)\<close>, and \<open>console\<close> is what \<^verbatim>\<open>console.log\<close> has printed.
\<close>

datatype pc =
    Start
  | Polling int
  | Paying nat "string list" "InvoiceLine list"
  | Returned string
  | Finished string

record workflow =
  wf_id :: string
  wf_invoice :: Invoice
  wf_pc :: pc
  ctx_runs :: "InvoiceLine list"

record world =
  objs :: "nat \<Rightarrow> approval"
  next_ref :: nat
  approvals :: "string \<rightharpoonup> nat"
  console :: "string list"
  workflows :: "workflow list"

text \<open>\<^verbatim>\<open>approvals.get(id)\<close>, as the entry read through its reference.\<close>

definition get_state :: "world \<Rightarrow> string \<Rightarrow> approval option" where
  "get_state w k = map_option (objs w) (approvals w k)"

text \<open>\<^verbatim>\<open>state.status = s\<close> and \<^verbatim>\<open>state.result = s\<close> on the object at \<open>r\<close>.\<close>

definition set_status :: "nat \<Rightarrow> status \<Rightarrow> world \<Rightarrow> world" where
  "set_status r s w = w\<lparr>objs := (objs w)(r := (objs w r)\<lparr>status := s\<rparr>)\<rparr>"

definition set_result :: "nat \<Rightarrow> string \<Rightarrow> world \<Rightarrow> world" where
  "set_result r s w = w\<lparr>objs := (objs w)(r := (objs w r)\<lparr>result := Some s\<rparr>)\<rparr>"

section \<open>The tool handlers\<close>

text \<open>
  Every \<^verbatim>\<open>throw new Error(...)\<close> of the request handler is a constructor;
  \<open>message\<close> is the text the source gives it.
\<close>

datatype error =
    NotFound string
  | NotPending string status
  | UnknownTool string

fun message :: "error \<Rightarrow> string" where
  "message (NotFound i) = ''Invoice '' @ i @ '' not found''"
| "message (NotPending i s) =
     ''Invoice '' @ i @ '' is not pending (status: '' @ status_text s @ '')''"
| "message (UnknownTool n) = ''Unknown tool: '' @ n"

text \<open>
  \<^verbatim>\<open>durableProcessInvoice(id, invoice).then(...)\<close>. The function returned by
  \<^verbatim>\<open>resonate.register\<close> belongs to the SDK, not to this repository, and the source does not
  say what it does with an execution id that it has seen before. The flag \<open>dedup\<close> covers
  both: with \<open>dedup\<close> the call returns the promise of the existing execution (to which the
  new \<^verbatim>\<open>.then\<close> callback is attached, so that it runs again if the promise was settled),
  without it a new execution starts.
\<close>

definition attach :: "workflow \<Rightarrow> workflow" where
  "attach x = (case wf_pc x of Finished s \<Rightarrow> x\<lparr>wf_pc := Returned s\<rparr> | _ \<Rightarrow> x)"

definition durableProcessInvoice ::
    "bool \<Rightarrow> string \<Rightarrow> Invoice \<Rightarrow> workflow list \<Rightarrow> workflow list" where
  "durableProcessInvoice dedup wid iv wfs =
     (if dedup \<and> wid \<in> set (map wf_id wfs)
      then map (\<lambda>x. if wf_id x = wid then attach x else x) wfs
      else wfs @ [\<lparr>wf_id = wid, wf_invoice = iv, wf_pc = Start, ctx_runs = []\<rparr>])"

text \<open>
  Line 250: \<^verbatim>\<open>lines.reduce((sum, line) => sum + line.amount, 0)\<close>, the amounts added from
  left to right, each addition rounded.
\<close>

definition sum_amounts :: "InvoiceLine list \<Rightarrow> number" where
  "sum_amounts ls = foldl (\<lambda>sum line. sum + amount line) 0 ls"

text \<open>Lines 244--280.\<close>

definition submit_invoice ::
    "bool \<Rightarrow> string \<Rightarrow> InvoiceLine list \<Rightarrow> world \<Rightarrow> (error + string) \<times> world" where
  "submit_invoice dedup invoice_id ls w =
     (let total = sum_amounts ls;
          iv = \<lparr>inv_id = invoice_id, lines = ls, totalAmount = total\<rparr>;
          r = next_ref w;
          w1 = w\<lparr>objs := (objs w)(r := \<lparr>status = pending, invoice = iv, result = None\<rparr>),
                 next_ref := Suc r,
                 approvals := (approvals w)(invoice_id \<mapsto> r)\<rparr>;
          w2 = w1\<lparr>workflows :=
                 durableProcessInvoice dedup (''invoice-'' @ invoice_id) iv (workflows w1)\<rparr>
      in (Inr (''Invoice '' @ invoice_id @ '' submitted for approval. Total: $''
                @ toString total
                @ ''\<newline>Use approve_invoice or reject_invoice to respond.''), w2))"

text \<open>Lines 282--304.\<close>

definition approve_invoice :: "string \<Rightarrow> world \<Rightarrow> (error + string) \<times> world" where
  "approve_invoice invoice_id w =
     (case approvals w invoice_id of
        None \<Rightarrow> (Inl (NotFound invoice_id), w)
      | Some r \<Rightarrow>
          if status (objs w r) \<noteq> pending
          then (Inl (NotPending invoice_id (status (objs w r))), w)
          else (Inr (''Invoice '' @ invoice_id @ '' approved! Processing payments...''),
                set_status r approved w))"

text \<open>Lines 306--328.\<close>

definition reject_invoice :: "string \<Rightarrow> world \<Rightarrow> (error + string) \<times> world" where
  "reject_invoice invoice_id w =
     (case approvals w invoice_id of
        None \<Rightarrow> (Inl (NotFound invoice_id), w)
      | Some r \<Rightarrow>
          if status (objs w r) \<noteq> pending
          then (Inl (NotPending invoice_id (status (objs w r))), w)
          else (Inr (''Invoice '' @ invoice_id @ '' rejected.''),
                set_status r rejected w))"

text \<open>
  Lines 330--354. \<^verbatim>\<open>if (state.result)\<close> tests truthiness: the result section is added
  when a result is present and is not the empty string.
\<close>

definition statusText :: "string \<Rightarrow> approval \<Rightarrow> string" where
  "statusText invoice_id state =
     ''Invoice '' @ invoice_id @ '':\<newline>''
     @ ''Status: '' @ status_text (status state) @ ''\<newline>''
     @ ''Total Amount: $'' @ toString (totalAmount (invoice state)) @ ''\<newline>''
     @ (case result state of
          None \<Rightarrow> []
        | Some s \<Rightarrow> if s = [] then [] else ''\<newline>Result:\<newline>'' @ s)"

definition check_invoice_status :: "string \<Rightarrow> world \<Rightarrow> (error + string) \<times> world" where
  "check_invoice_status invoice_id w =
     (case approvals w invoice_id of
        None \<Rightarrow> (Inl (NotFound invoice_id), w)
      | Some r \<Rightarrow> (Inr (statusText invoice_id (objs w r)), w))"

text \<open>
  The dispatch of lines 241--357 on the tool name; \<open>arg_invoice_id\<close> and \<open>arg_lines\<close>
  are the arguments \<^verbatim>\<open>invoice_id\<close> and \<^verbatim>\<open>lines\<close>, the second read by
  \<^verbatim>\<open>submit_invoice\<close> only.
\<close>

record params =
  name :: string
  arg_invoice_id :: string
  arg_lines :: "InvoiceLine list"

definition call_tool :: "bool \<Rightarrow> params \<Rightarrow> world \<Rightarrow> (error + string) \<times> world" where
  "call_tool dedup p w =
     (if name p = ''submit_invoice'' then submit_invoice dedup (arg_invoice_id p) (arg_lines p) w
      else if name p = ''approve_invoice'' then approve_invoice (arg_invoice_id p) w
      else if name p = ''reject_invoice'' then reject_invoice (arg_invoice_id p) w
      else if name p = ''check_invoice_status'' then check_invoice_status (arg_invoice_id p) w
      else (Inl (UnknownTool (name p)), w))"

section \<open>The workflow \<^verbatim>\<open>processInvoice\<close>\<close>

definition timeout :: int where
  "timeout = 5 * 60 * 1000"

text \<open>
  Line 97. The sleep of line 111 lasts at least this long, so that the clock readings of
  successive wake-ups are at least \<open>pollInterval\<close> apart.
\<close>

definition pollInterval :: int where
  "pollInterval = 1000"

text \<open>
  Lines 55--67, with the console passed through. The call is one step of the model: the
  line is logged and the result produced when the awaited call settles.
\<close>

definition processPayment :: "InvoiceLine \<Rightarrow> string list \<Rightarrow> string \<times> string list" where
  "processPayment line out =
     (''Processed payment for '' @ item line @ '': $'' @ toString (amount line),
      out @ [''Processing payment: '' @ item line @ '' - $'' @ toString (amount line)])"

text \<open>Lines 136--139: the end of the payment loop, on the held reference \<open>r\<close>.\<close>

definition complete :: "nat \<Rightarrow> string list \<Rightarrow> workflow \<Rightarrow> world \<Rightarrow> workflow \<times> world" where
  "complete r results x w =
     (x\<lparr>wf_pc := Returned (''COMPLETED\<newline>'' @ join ''\<newline>'' results)\<rparr>,
      set_result r (join ''\<newline>'' results) (set_status r completed w))"

text \<open>
  Lines 131--134: the awaited \<^verbatim>\<open>ctx.run(processPayment, line)\<close> settles, its result is
  pushed, and the loop goes on to the next line or ends.
\<close>

definition pay ::
    "nat \<Rightarrow> string list \<Rightarrow> InvoiceLine list \<Rightarrow> workflow \<Rightarrow> world \<Rightarrow> workflow \<times> world" where
  "pay r results rest x w =
     (case rest of
        [] \<Rightarrow> complete r results x w
      | line # rest' \<Rightarrow>
          (let (res, out) = processPayment line (console w);
               x1 = x\<lparr>ctx_runs := ctx_runs x @ [line]\<rparr>;
               w1 = w\<lparr>console := out\<rparr>;
               results1 = results @ [res]
           in if rest' = [] then complete r results1 x1 w1
              else (x1\<lparr>wf_pc := Paying r results1 rest'\<rparr>, w1)))"

text \<open>Lines 114--142, up to the first awaited payment.\<close>

definition after_loop :: "workflow \<Rightarrow> world \<Rightarrow> workflow \<times> world" where
  "after_loop x w =
     (case approvals w (inv_id (wf_invoice x)) of
        None \<Rightarrow> (x\<lparr>wf_pc := Returned ''REJECTED''\<rparr>, w)
      | Some r \<Rightarrow>
          if status (objs w r) = pending
          then (x\<lparr>wf_pc := Returned ''REJECTED due to timeout''\<rparr>, set_status r rejected w)
          else if status (objs w r) = approved
          then (let w1 = set_status r processing w
                in if lines (wf_invoice x) = [] then complete r [] x w1
                   else (x\<lparr>wf_pc := Paying r [] (lines (wf_invoice x))\<rparr>, w1))
          else (x\<lparr>wf_pc := Returned ''REJECTED''\<rparr>, w))"

text \<open>
  Lines 99--112: the loop condition at the clock reading \<open>now\<close> and one iteration up to
  the sleep.
\<close>

definition loop_head :: "int \<Rightarrow> int \<Rightarrow> workflow \<Rightarrow> world \<Rightarrow> workflow \<times> world" where
  "loop_head now startTime x w =
     (if now - startTime < timeout
      then (case approvals w (inv_id (wf_invoice x)) of
              None \<Rightarrow> (x\<lparr>wf_pc := Polling startTime\<rparr>, w)
            | Some r \<Rightarrow>
                if status (objs w r) = approved then after_loop x w
                else if status (objs w r) = rejected
                then (x\<lparr>wf_pc := Returned ''REJECTED by user''\<rparr>, w)
                else (x\<lparr>wf_pc := Polling startTime\<rparr>, w))
      else after_loop x w)"

text \<open>
  Lines 86--97, then the first pass through the loop. The two readings of
  \<^verbatim>\<open>Date.now()\<close> in this segment, with no \<^verbatim>\<open>await\<close> between them, are the one
  reading \<open>now\<close>.
\<close>

definition enter :: "int \<Rightarrow> workflow \<Rightarrow> world \<Rightarrow> workflow \<times> world" where
  "enter now x w =
     loop_head now now x
       (case approvals w (inv_id (wf_invoice x)) of
          None \<Rightarrow> w
        | Some r \<Rightarrow> set_status r pending w)"

text \<open>Lines 265--270: the callback of the submit handler, run with the returned string.\<close>

definition then_callback :: "string \<Rightarrow> workflow \<Rightarrow> world \<Rightarrow> workflow \<times> world" where
  "then_callback s x w =
     (x\<lparr>wf_pc := Finished s\<rparr>,
      case approvals w (inv_id (wf_invoice x)) of
        None \<Rightarrow> w
      | Some r \<Rightarrow> set_result r s w)"

text \<open>The execution runs from its control point to its next \<^verbatim>\<open>await\<close>.\<close>

definition resume :: "int \<Rightarrow> workflow \<Rightarrow> world \<Rightarrow> workflow \<times> world" where
  "resume now x w =
     (case wf_pc x of
        Start \<Rightarrow> enter now x w
      | Polling startTime \<Rightarrow> loop_head now startTime x w
      | Paying r results rest \<Rightarrow> pay r results rest x w
      | Returned s \<Rightarrow> then_callback s x w
      | Finished s \<Rightarrow> (x, w))"

section \<open>The server as a transition system\<close>

text \<open>
  JavaScript runs one handler or one segment of an execution at a time. An event is a tool
  call, or the execution at index \<open>n\<close> being resumed at the clock reading \<open>now\<close>.
\<close>

datatype event = Call params | Resume nat int

definition step :: "bool \<Rightarrow> event \<Rightarrow> world \<Rightarrow> world" where
  "step dedup e w =
     (case e of
        Call p \<Rightarrow> snd (call_tool dedup p w)
      | Resume n now \<Rightarrow>
          if n < length (workflows w)
          then (let (x, w1) = resume now (workflows w ! n) w
                in w1\<lparr>workflows := (workflows w1)[n := x]\<rparr>)
          else w)"

fun exec :: "bool \<Rightarrow> event list \<Rightarrow> world \<Rightarrow> world" where
  "exec dedup [] w = w"
| "exec dedup (e # es) w = exec dedup es (step dedup e w)"

text \<open>The server after start-up: no entry, no execution. The heap cells are unused.\<close>

definition initial :: world where
  "initial =
     \<lparr>objs = (\<lambda>_. \<lparr>status = pending,
                    invoice = \<lparr>inv_id = [], lines = [], totalAmount = 0\<rparr>,
                    result = None\<rparr>),
      next_ref = 0, approvals = Map.empty, console = [], workflows = []\<rparr>"

section \<open>Vocabulary of the properties\<close>

text \<open>The string that \<^verbatim>\<open>processPayment\<close> returns for a line.\<close>

definition payment_text :: "InvoiceLine \<Rightarrow> string" where
  "payment_text line = fst (processPayment line [])"

text \<open>The three rejection results of \<^verbatim>\<open>processInvoice\<close> (lines 107, 121 and 142).\<close>

definition rejections :: "string list" where
  "rejections = [''REJECTED by user'', ''REJECTED due to timeout'', ''REJECTED'']"

text \<open>
  What holds of an execution at each control point: before the payment loop it has paid
  nothing; in the loop it has paid a prefix of the invoice's lines, in order, and holds
  their results; after its return it has either paid nothing and returned a rejection, or
  paid every line in order and returned the results in that order.
\<close>

definition settled :: "string \<Rightarrow> workflow \<Rightarrow> bool" where
  "settled s x =
     (s \<in> set rejections \<and> ctx_runs x = [] \<or>
      s = ''COMPLETED\<newline>'' @ join ''\<newline>'' (map payment_text (lines (wf_invoice x)))
        \<and> ctx_runs x = lines (wf_invoice x))"

definition wf_ok :: "workflow \<Rightarrow> bool" where
  "wf_ok x =
     (case wf_pc x of
        Start \<Rightarrow> ctx_runs x = []
      | Polling startTime \<Rightarrow> ctx_runs x = []
      | Paying r results rest \<Rightarrow>
          rest \<noteq> [] \<and> results = map payment_text (ctx_runs x)
          \<and> ctx_runs x @ rest = lines (wf_invoice x)
      | Returned s \<Rightarrow> settled s x
      | Finished s \<Rightarrow> settled s x)"

text \<open>
  The transition table of the approval gate as the specification draws it, and \<open>forward\<close>,
  its reflexive and transitive closure: \<open>forward s t\<close> says that \<open>t\<close> is \<open>s\<close> or comes after
  it on the path \<open>pending \<rightarrow> approved \<rightarrow> processing \<rightarrow> completed\<close> or \<open>pending \<rightarrow> rejected\<close>.
\<close>

fun transition :: "status \<Rightarrow> status \<Rightarrow> bool" where
  "transition pending approved = True"
| "transition pending rejected = True"
| "transition approved processing = True"
| "transition processing completed = True"
| "transition s t = False"

fun forward :: "status \<Rightarrow> status \<Rightarrow> bool" where
  "forward pending t = True"
| "forward approved t = (t = approved \<or> t = processing \<or> t = completed)"
| "forward processing t = (t = processing \<or> t = completed)"
| "forward rejected t = (t = rejected)"
| "forward completed t = (t = completed)"

text \<open>A call of \<^verbatim>\<open>submit_invoice\<close> for the id \<open>i\<close>.\<close>

definition is_submit :: "string \<Rightarrow> event \<Rightarrow> bool" where
  "is_submit i e =
     (case e of
        Call p \<Rightarrow> name p = ''submit_invoice'' \<and> arg_invoice_id p = i
      | Resume n now \<Rightarrow> False)"

text \<open>
  A world is steady for the id \<open>i\<close> when every execution started for an invoice with this
  id has entered the body of \<^verbatim>\<open>processInvoice\<close> and the entry that such an execution
  holds in \<^verbatim>\<open>finalState\<close> while it pays is in processing or completed.
\<close>

definition holds_processing :: "world \<Rightarrow> workflow \<Rightarrow> bool" where
  "holds_processing w x =
     (case wf_pc x of
        Paying r results rest \<Rightarrow> forward processing (status (objs w r))
      | _ \<Rightarrow> True)"

definition steady_for :: "string \<Rightarrow> world \<Rightarrow> bool" where
  "steady_for i w =
     list_all (\<lambda>x. inv_id (wf_invoice x) = i \<longrightarrow> wf_pc x \<noteq> Start \<and> holds_processing w x)
       (workflows w)"

text \<open>
  Every entry belongs to the id it was submitted under: the map sends an id to an allocated
  entry whose invoice has this id, and a paying execution holds an allocated entry whose
  invoice has the id of its own invoice.
\<close>

definition held_owned :: "world \<Rightarrow> workflow \<Rightarrow> bool" where
  "held_owned w x =
     (case wf_pc x of
        Paying r results rest \<Rightarrow>
          r < next_ref w \<and> inv_id (invoice (objs w r)) = inv_id (wf_invoice x)
      | _ \<Rightarrow> True)"

definition owned :: "world \<Rightarrow> bool" where
  "owned w =
     ((\<forall>k r. approvals w k = Some r \<longrightarrow> r < next_ref w \<and> inv_id (invoice (objs w r)) = k)
      \<and> list_all (held_owned w) (workflows w))"

section \<open>The example of the README: $100 consulting and $50 expenses\<close>

definition consulting :: InvoiceLine where
  "consulting = \<lparr>item = ''consulting'', amount = Fin 100, description = ''March''\<rparr>"

definition expenses :: InvoiceLine where
  "expenses = \<lparr>item = ''expenses'', amount = Fin 50, description = ''travel''\<rparr>"

definition inv1 :: Invoice where
  "inv1 = \<lparr>inv_id = ''INV-1'', lines = [consulting, expenses], totalAmount = Fin 150\<rparr>"

text \<open>
  Two invoices on which the additions of line 250 round: a line of \<open>2\<^sup>5\<^sup>3\<close> followed by a
  line of 1, and the lines that the JSON literals \<^verbatim>\<open>0.1\<close> and \<^verbatim>\<open>0.2\<close> give.
\<close>

definition settlement :: InvoiceLine where
  "settlement = \<lparr>item = ''settlement'', amount = Fin 9007199254740992, description = ''Q1''\<rparr>"

definition surcharge :: InvoiceLine where
  "surcharge = \<lparr>item = ''surcharge'', amount = Fin 1, description = ''Q1''\<rparr>"

definition sticker :: InvoiceLine where
  "sticker = \<lparr>item = ''sticker'', amount = fl (1 / 10), description = ''sheet''\<rparr>"

definition stamp :: InvoiceLine where
  "stamp = \<lparr>item = ''stamp'', amount = fl (2 / 10), description = ''letter''\<rparr>"

definition call :: "string \<Rightarrow> string \<Rightarrow> InvoiceLine list \<Rightarrow> event" where
  "call tool i ls = Call \<lparr>name = tool, arg_invoice_id = i, arg_lines = ls\<rparr>"

text \<open>
  \<^verbatim>\<open>INV-1\<close> stored at address 0 with status \<open>s\<close>, its execution asleep in the polling
  loop that it entered at time 0.
\<close>

definition waiting :: "status \<Rightarrow> world" where
  "waiting s =
     \<lparr>objs = (objs initial)(0 := \<lparr>status = s, invoice = inv1, result = None\<rparr>),
      next_ref = 1,
      approvals = [''INV-1'' \<mapsto> 0],
      console = [],
      workflows = [\<lparr>wf_id = ''invoice-INV-1'', wf_invoice = inv1,
                    wf_pc = Polling 0, ctx_runs = []\<rparr>]\<rparr>"

text \<open>
  Three runs of the server from its start: the invoice is submitted and its execution
  enters the polling loop; then it is approved and paid, or rejected.
\<close>

definition waiting_run :: "event list" where
  "waiting_run = [call ''submit_invoice'' ''INV-1'' [consulting, expenses], Resume 0 0]"

definition approved_run :: "event list" where
  "approved_run =
     [call ''submit_invoice'' ''INV-1'' [consulting, expenses], Resume 0 0,
      call ''approve_invoice'' ''INV-1'' [], Resume 0 1000,
      Resume 0 1100, Resume 0 1200, Resume 0 1300]"

definition rejected_run :: "event list" where
  "rejected_run =
     [call ''submit_invoice'' ''INV-1'' [consulting, expenses], Resume 0 0,
      call ''reject_invoice'' ''INV-1'' [], Resume 0 1000, Resume 0 1001]"

text \<open>
  The approved invoice is submitted again, with one line; and, after \<open>waiting_run\<close>, a run
  in which a second invoice is submitted and both are approved and paid, their executions
  interleaved, before \<^verbatim>\<open>INV-1\<close> is decided twice more.
\<close>

definition resubmit_run :: "event list" where
  "resubmit_run =
     waiting_run @ [call ''approve_invoice'' ''INV-1'' [],
                    call ''submit_invoice'' ''INV-1'' [consulting]]"

definition mixed_run :: "event list" where
  "mixed_run =
     [call ''submit_invoice'' ''INV-2'' [expenses], call ''approve_invoice'' ''INV-1'' [],
      Resume 0 1000, Resume 1 1001, call ''approve_invoice'' ''INV-2'' [], Resume 0 1100,
      Resume 1 2001, Resume 0 1200, Resume 0 1300, Resume 1 2100,
      call ''reject_invoice'' ''INV-1'' [], call ''approve_invoice'' ''INV-1'' []]"

section \<open>Facts about numbers\<close>

text \<open>
  \<open>ilog\<close> is the integer logarithm, and an integer of magnitude up to \<open>2\<^sup>5\<^sup>3\<close> is a Number
  value: rounding leaves it as it is.
\<close>

lemma ndigits_pos: "0 < n \<Longrightarrow> 2 \<le> b \<Longrightarrow> 0 < ndigits b n"
  by (subst ndigits.simps) simp

lemma ndigits_bounds:
  "0 < n \<Longrightarrow> 2 \<le> b \<Longrightarrow> b ^ (ndigits b n - 1) \<le> n \<and> n < b ^ ndigits b n"
proof (induction b n rule: ndigits.induct)
  case (1 b n)
  show ?case
  proof (cases "n < b")
    case True
    with "1.prems" have "n div b = 0" by simp
    then have "ndigits b (n div b) = 0" by (simp add: ndigits.simps)
    with "1.prems" have "ndigits b n = 1" by (subst ndigits.simps) simp
    with True "1.prems" show ?thesis by simp
  next
    case False
    with "1.prems" have pos: "0 < n div b"
      by (simp add: pos_imp_zdiv_pos_iff)
    with "1.prems" "1.IH" have ih: "b ^ (ndigits b (n div b) - 1) \<le> n div b"
      "n div b < b ^ ndigits b (n div b)"
      by auto
    from "1.prems" have eq: "ndigits b n = Suc (ndigits b (n div b))"
      by (subst ndigits.simps) simp
    from "1.prems" have m: "0 \<le> n mod b" "n mod b < b" by simp_all
    have d: "n = b * (n div b) + n mod b" by simp
    from pos "1.prems" have dpos: "0 < ndigits b (n div b)" by (simp add: ndigits_pos)
    have "b ^ ndigits b (n div b) = b * b ^ (ndigits b (n div b) - 1)"
      using dpos by (cases "ndigits b (n div b)") simp_all
    also have "\<dots> \<le> b * (n div b)" using ih(1) "1.prems" by (simp add: mult_left_mono)
    also have "\<dots> \<le> n" using m d by linarith
    finally have lower: "b ^ ndigits b (n div b) \<le> n" .
    have "b * (n div b + 1) = b * (n div b) + b" by (simp add: algebra_simps)
    with m d have "n < b * (n div b + 1)" by linarith
    also have "\<dots> \<le> b * b ^ ndigits b (n div b)"
      using ih(2) "1.prems" by (intro mult_left_mono) auto
    finally have upper: "n < b ^ Suc (ndigits b (n div b))" by simp
    from lower upper show ?thesis by (simp add: eq)
  qed
qed

lemma ilog_bounds:
  assumes x: "0 < x" and b: "2 \<le> b"
  shows "of_int b powi ilog b x \<le> x" and "x < of_int b powi (ilog b x + 1)"
proof -
  obtain p d where qo: "quotient_of x = (p, d)" by (cases "quotient_of x")
  define B :: rat where "B = of_int b"
  define dp where "dp = ndigits b p"
  define dd where "dd = ndigits b d"
  define t where "t = int dp - int dd"
  from qo have d: "0 < d" by (rule quotient_of_denom_pos)
  from qo have xe: "x = of_int p / of_int d" by (rule quotient_of_div)
  with x d have p: "0 < p" by (simp add: zero_less_divide_iff)
  from b have B: "0 < B" "B \<noteq> 0" by (simp_all add: B_def)
  have pb: "b ^ (dp - 1) \<le> p" "p < b ^ dp" and dp: "0 < dp"
    using ndigits_bounds [OF p b] ndigits_pos [OF p b] by (simp_all add: dp_def)
  have db: "b ^ (dd - 1) \<le> d" "d < b ^ dd" and dd: "0 < dd"
    using ndigits_bounds [OF d b] ndigits_pos [OF d b] by (simp_all add: dd_def)
  have P: "B ^ (dp - 1) \<le> of_int p" "of_int p < B ^ dp"
    using pb unfolding B_def by (simp_all flip: of_int_power)
  have D: "B ^ (dd - 1) \<le> of_int d" "of_int d < B ^ dd"
    using db unfolding B_def by (simp_all flip: of_int_power)
  have "x < B ^ dp / B ^ (dd - 1)"
    unfolding xe using p P D B by (intro frac_less) simp_all
  also have "B ^ dp / B ^ (dd - 1) = B powi (int dp - int (dd - 1))"
    using B by (simp add: power_int_diff)
  also have "int dp - int (dd - 1) = t + 1" using dd by (simp add: t_def)
  finally have up: "x < B powi (t + 1)" .
  have "t - 1 = int (dp - 1) - int dd" using dp by (simp add: t_def)
  then have "B powi (t - 1) = B powi (int (dp - 1) - int dd)" by (rule arg_cong)
  also have "\<dots> = B ^ (dp - 1) / B ^ dd" using B by (simp add: power_int_diff)
  also have "\<dots> \<le> x"
    unfolding xe using p d P D B by (intro frac_le) simp_all
  finally have low: "B powi (t - 1) \<le> x" .
  have il: "ilog b x = (if B powi t \<le> x then t else t - 1)"
    by (simp add: ilog_def qo t_def dp_def dd_def B_def)
  show "of_int b powi ilog b x \<le> x"
    using low by (simp add: il flip: B_def)
  show "x < of_int b powi (ilog b x + 1)"
    using up by (simp add: il flip: B_def)
qed

lemma ilog_unique:
  assumes "0 < x" and "2 \<le> b" and "of_int b powi k \<le> x" and "x < of_int b powi (k + 1)"
  shows "ilog b x = k"
proof -
  define B :: rat where "B = of_int b"
  from assms(2) have B: "1 < B" by (simp add: B_def)
  note ib = ilog_bounds [OF assms(1) assms(2), folded B_def]
  have lt1: "B powi k < B powi (ilog b x + 1)" using assms(3) ib(2) by (simp add: B_def)
  have 1: "k < ilog b x + 1"
  proof (rule ccontr)
    assume "\<not> k < ilog b x + 1"
    then have "B powi (ilog b x + 1) \<le> B powi k" using B by (intro power_int_increasing) simp_all
    with lt1 show False by simp
  qed
  have lt2: "B powi ilog b x < B powi (k + 1)" using assms(4) ib(1) by (simp add: B_def)
  have 2: "ilog b x < k + 1"
  proof (rule ccontr)
    assume "\<not> ilog b x < k + 1"
    then have "B powi (k + 1) \<le> B powi ilog b x" using B by (intro power_int_increasing) simp_all
    with lt2 show False by simp
  qed
  from 1 2 show ?thesis by simp
qed

lemma round_half_even_int [simp]: "round_half_even (of_int m) = m"
  by (simp add: round_half_even_def)

lemma fl_int:
  assumes "\<bar>z\<bar> \<le> 2 ^ 53"
  shows "fl (of_int z) = Fin (of_int z)"
proof (cases "z = 0")
  case True
  then show ?thesis by (simp add: fl_def)
next
  case False
  define a :: rat where "a = of_int \<bar>z\<bar>"
  define e where "e = ilog 2 a"
  from False have a1: "1 \<le> a" by (simp add: a_def)
  from assms have a2: "a \<le> 2 ^ 53"
    unfolding a_def by (metis of_int_le_iff of_int_numeral of_int_power)
  from a1 have apos: "0 < a" by simp
  have ib: "2 powi e \<le> a" "a < 2 powi (e + 1)"
    using ilog_bounds [OF apos, of 2] by (simp_all add: e_def)
  have e0: "0 \<le> e"
  proof (rule ccontr)
    assume "\<not> 0 \<le> e"
    then have "e + 1 \<le> 0" by simp
    then have "(2::rat) powi (e + 1) \<le> 2 powi 0" by (intro power_int_increasing) simp_all
    with ib(2) a1 show False by simp
  qed
  have e53: "e \<le> 53"
  proof (rule ccontr)
    assume "\<not> e \<le> 53"
    then have "54 \<le> e" by simp
    then have "(2::rat) powi 54 \<le> 2 powi e" by (intro power_int_increasing) simp_all
    with ib(1) a2 show False by simp
  qed
  define u :: rat where "u = 2 powi (e - 52)"
  have upos: "0 < u" by (simp add: u_def)
  have "\<exists>m. a / u = of_int m"
  proof (cases "e \<le> 52")
    case True
    then have "a / u = a * 2 powi (52 - e)"
      by (simp add: u_def power_int_diff field_simps)
    also have "\<dots> = of_int (\<bar>z\<bar> * 2 ^ nat (52 - e))"
      using True by (simp add: a_def power_int_def)
    finally show ?thesis by blast
  next
    case False
    with e53 have e: "e = 53" by simp
    with ib(1) a2 have "a = 2 ^ 53" by simp
    with e have "a / u = of_int (2 ^ 52)" by (simp add: u_def)
    then show ?thesis by blast
  qed
  then obtain m where m: "a / u = of_int m" ..
  with upos have v: "of_int (round_half_even (a / u)) * u = a" by (simp add: field_simps)
  have il: "ilog 2 a = e" by (simp add: e_def)
  have az: "\<bar>of_int z :: rat\<bar> = a" by (simp add: a_def)
  have mx: "max e (- 1022) = e" using e0 by simp
  from e53 have ne: "\<not> 1024 \<le> e" by simp
  from apos have an: "a \<noteq> 0" by simp
  have sg: "z < 0 \<Longrightarrow> - a = of_int z" "\<not> z < 0 \<Longrightarrow> a = of_int z"
    by (simp_all add: a_def)
  show ?thesis
    unfolding fl_def Let_def az il mx u_def [symmetric] v
    using False an ne sg by simp
qed

text \<open>
  A number that is an integer of magnitude up to \<open>2\<^sup>5\<^sup>3\<close> is printed as that integer in
  decimal notation. With \<open>z = m \<times> 10\<^sup>j\<close> and \<open>m\<close> not a multiple of ten, a candidate of
  fewer digits than \<open>m\<close> has is not \<open>z\<close>: the one below is an integer smaller than \<open>z\<close>,
  the one above an even integer greater than \<open>z\<close>, and neither rounds to \<open>z\<close>. So the search
  ends at the digits of \<open>m\<close>, to which \<open>j\<close> zeros are appended.
\<close>

lemma ilog_int:
  assumes "0 < z" and "2 \<le> b"
  shows "ilog b (of_int z) = int (ndigits b z) - 1"
proof (rule ilog_unique)
  from assms show "0 < (of_int z :: rat)" by simp
  show "2 \<le> b" by fact
  note nb = ndigits_bounds [OF assms] and np = ndigits_pos [OF assms]
  have "(of_int b :: rat) powi (int (ndigits b z) - 1) = of_int b ^ (ndigits b z - 1)"
    using np by (simp add: power_int_def nat_diff_distrib')
  also have "\<dots> = of_int (b ^ (ndigits b z - 1))" by simp
  also have "\<dots> \<le> of_int z" using nb by (simp only: of_int_le_iff)
  finally show "(of_int b :: rat) powi (int (ndigits b z) - 1) \<le> of_int z" .
  have "(of_int z :: rat) < of_int (b ^ ndigits b z)" using nb by (simp only: of_int_less_iff)
  also have "\<dots> = of_int b powi (int (ndigits b z) - 1 + 1)" by (simp add: power_int_def)
  finally show "(of_int z :: rat) < of_int b powi (int (ndigits b z) - 1 + 1)" .
qed

lemma ndigits_unique:
  assumes "b ^ k \<le> n" and "n < b ^ Suc k" and "2 \<le> b"
  shows "ndigits b n = Suc k"
proof -
  from assms(3) have "0 < b ^ k" by simp
  with assms(1) have n: "0 < n" by simp
  note nb = ndigits_bounds [OF n assms(3)] and np = ndigits_pos [OF n assms(3)]
  from assms(3) have b1: "1 < b" by simp
  have "b ^ k < b ^ ndigits b n" using assms(1) nb by simp
  then have 1: "k < ndigits b n" using b1 by (simp add: power_strict_increasing_iff)
  have "b ^ (ndigits b n - 1) < b ^ Suc k" using assms(2) nb by linarith
  then have 2: "ndigits b n - 1 < Suc k" using b1 by (simp only: power_strict_increasing_iff)
  from 1 2 show ?thesis by simp
qed

lemma ndigits_shift:
  assumes "0 < m"
  shows "ndigits 10 (m * 10 ^ j) = ndigits 10 m + j"
proof -
  have b: "(2::int) \<le> 10" by simp
  note nb = ndigits_bounds [OF assms b] and np = ndigits_pos [OF assms b]
  obtain k where k: "ndigits 10 m = Suc k" using np by (cases "ndigits 10 m") simp_all
  from nb have 1: "10 ^ (k + j) \<le> m * 10 ^ j" by (simp add: k power_add)
  from nb have 2: "m * 10 ^ j < 10 ^ Suc (k + j)" by (simp add: k power_add)
  from ndigits_unique [OF 1 2 b] show ?thesis by (simp add: k)
qed

lemma length_decimal: "0 < m \<Longrightarrow> length (decimal m) = ndigits 10 m"
proof (induction m rule: decimal.induct)
  case (1 n)
  show ?case
  proof (cases "n < 10")
    case True
    with "1.prems" have "n div 10 = 0" by simp
    then have "ndigits 10 (n div 10) = 0" by (simp add: ndigits.simps)
    with "1.prems" have "ndigits 10 n = 1" by (subst ndigits.simps) simp
    with True show ?thesis by (subst decimal.simps) simp
  next
    case False
    then have pos: "0 < n div 10" by simp
    with False "1.IH" have "length (decimal (n div 10)) = ndigits 10 (n div 10)" by simp
    moreover from "1.prems" have "ndigits 10 n = Suc (ndigits 10 (n div 10))"
      by (subst ndigits.simps) simp
    ultimately show ?thesis using False by (subst decimal.simps) simp
  qed
qed

lemma decimal_shift: "0 < m \<Longrightarrow> decimal (m * 10 ^ j) = decimal m @ replicate j (CHR ''0'')"
proof (induction j)
  case 0
  then show ?case by simp
next
  case (Suc j)
  from Suc.prems have "0 < m * 10 ^ j" by simp
  then have ge: "\<not> (m * 10 ^ j) * 10 < 10" by simp
  have "m * 10 ^ Suc j = (m * 10 ^ j) * 10" by simp
  then have "decimal (m * 10 ^ Suc j) = decimal ((m * 10 ^ j) * 10)" by (rule arg_cong)
  also have "\<dots> = decimal (m * 10 ^ j) @ ''0''"
    using ge by (subst decimal.simps) simp
  also have "\<dots> = decimal m @ replicate (Suc j) (CHR ''0'')"
    using Suc by (simp add: replicate_append_same)
  finally show ?case .
qed

lemma trailing_zeros:
  "0 < z \<Longrightarrow> \<exists>m j. z = m * 10 ^ j \<and> 0 < m \<and> m mod 10 \<noteq> (0::int)"
proof (induction "nat z" arbitrary: z rule: less_induct)
  case less
  show ?case
  proof (cases "z mod 10 = 0")
    case False
    with less.prems have "z = z * 10 ^ 0 \<and> 0 < z \<and> z mod 10 \<noteq> 0" by simp
    then show ?thesis by blast
  next
    case True
    then have z: "z = (z div 10) * 10" by presburger
    with less.prems have pos: "0 < z div 10" by simp
    with less.prems have "nat (z div 10) < nat z" by simp
    from less.hyps [OF this pos] obtain m j where "z div 10 = m * 10 ^ j" "0 < m" "m mod 10 \<noteq> 0"
      by blast
    with z have "z = m * 10 ^ Suc j \<and> 0 < m \<and> m mod 10 \<noteq> 0" by simp
    then show ?thesis by blast
  qed
qed

lemma dvd_shift:
  assumes "m mod 10 \<noteq> (0::int)"
  shows "10 ^ e dvd m * 10 ^ j \<longleftrightarrow> e \<le> j"
proof
  assume "e \<le> j"
  then have "(10::int) ^ e dvd 10 ^ j" by (rule le_imp_power_dvd)
  then show "10 ^ e dvd m * 10 ^ j" by simp
next
  assume d: "10 ^ e dvd m * 10 ^ j"
  show "e \<le> j"
  proof (rule ccontr)
    assume "\<not> e \<le> j"
    then obtain r where e: "e = j + Suc r" by (metis add_Suc_right less_imp_Suc_add not_le)
    from d have "(10::int) ^ j * 10 ^ Suc r dvd 10 ^ j * m" by (simp add: e power_add mult.commute)
    then have "(10::int) ^ Suc r dvd m" by simp
    then have "10 dvd m" by (rule dvd_trans [rotated]) simp
    with assms show False by (simp add: dvd_eq_mod_eq_0)
  qed
qed

lemma round_half_even_ge: "\<lfloor>r\<rfloor> \<le> round_half_even r"
  by (simp add: round_half_even_def Let_def)

lemma fl_above:
  assumes a: "2 ^ 53 + 2 \<le> a"
  shows "fl a = PosInf \<or> (\<exists>v. fl a = Fin v \<and> 2 ^ 53 + 2 \<le> v)"
proof -
  define e where "e = ilog 2 a"
  define u :: rat where "u = 2 powi (e - 52)"
  define v :: rat where "v = of_int (round_half_even (a / u)) * u"
  have apos: "0 < a" by (rule less_le_trans [OF _ a]) simp
  have ib: "2 powi e \<le> a" "a < 2 powi (e + 1)"
    using ilog_bounds [OF apos, of 2] by (simp_all add: e_def)
  have e53: "53 \<le> e"
  proof (rule ccontr)
    assume "\<not> 53 \<le> e"
    then have "e + 1 \<le> 53" by simp
    then have "(2::rat) powi (e + 1) \<le> 2 powi 53" by (intro power_int_increasing) simp_all
    with ib(2) a show False by simp
  qed
  have upos: "0 < u" by (simp add: u_def)
  have fl: "of_int \<lfloor>a / u\<rfloor> * u \<le> v"
    unfolding v_def using upos round_half_even_ge [of "a / u"] by (simp add: mult_right_mono)
  have low: "2 ^ 53 + 2 \<le> of_int \<lfloor>a / u\<rfloor> * u"
  proof (cases "e = 53")
    case True
    then have u2: "u = 2" by (simp add: u_def)
    from a have "of_int (2 ^ 52 + 1) \<le> a / 2" by simp
    then have "2 ^ 52 + 1 \<le> \<lfloor>a / 2\<rfloor>" by (simp only: le_floor_iff)
    then have "(of_int (2 ^ 52 + 1) :: rat) \<le> of_int \<lfloor>a / 2\<rfloor>" by (simp only: of_int_le_iff)
    then show ?thesis by (simp add: u2)
  next
    case False
    with e53 have e54: "54 \<le> e" by simp
    have "(2::rat) powi e / u = 2 powi 52" by (simp add: u_def power_int_diff)
    then have "(2::rat) powi 52 \<le> a / u" using ib(1) upos by (simp add: field_simps)
    then have "of_int (2 ^ 52) \<le> a / u" by simp
    then have "2 ^ 52 \<le> \<lfloor>a / u\<rfloor>" by (simp only: le_floor_iff)
    then have "(of_int (2 ^ 52) :: rat) \<le> of_int \<lfloor>a / u\<rfloor>" by (simp only: of_int_le_iff)
    then have "of_int (2 ^ 52) * u \<le> of_int \<lfloor>a / u\<rfloor> * u" using upos by (simp add: mult_right_mono)
    moreover have "of_int (2 ^ 52) * u = 2 powi e" by (simp add: u_def power_int_diff)
    moreover have "(2::rat) powi 54 \<le> 2 powi e" using e54 by (intro power_int_increasing) simp_all
    ultimately show ?thesis by simp
  qed
  from fl low have v: "2 ^ 53 + 2 \<le> v" by simp
  have "0 < v" by (rule less_le_trans [OF _ v]) simp
  then have vpos: "v \<noteq> 0" by simp
  have mx: "max e (- 1022) = e" using e53 by simp
  have az: "\<bar>a\<bar> = a" using apos by simp
  have "fl a = (if 1024 \<le> ilog 2 v then PosInf else Fin v)"
    unfolding fl_def Let_def az e_def [symmetric] mx u_def [symmetric] v_def [symmetric]
    using apos vpos by simp
  with v show ?thesis by simp
qed

lemma shortest_hit:
  assumes z: "z = m * 10 ^ j" and m: "0 < m" and b: "z \<le> 2 ^ 53" and kj: "k + j = N"
  shows "shortest fuel (of_int z) (int N) k = (m, int j)"
proof -
  define D :: rat where "D = 10 ^ j"
  have E: "int N - int k = int j" using kj by simp
  have P: "(10::rat) powi int j = D" by (simp add: D_def)
  have T: "(of_int z :: rat) / D = of_int m" by (simp add: z D_def)
  have FL: "\<lfloor>of_int m :: rat\<rfloor> = m" by simp
  from m z have "0 \<le> z" by simp
  with b have "\<bar>z\<bar> \<le> 2 ^ 53" by simp
  then have "fl (of_int z) = Fin (of_int z)" by (rule fl_int)
  moreover have "(of_int m :: rat) * D = of_int z" by (simp add: z D_def)
  ultimately have VLO: "(fl (of_int m * D) = Fin (of_int z)) = True" by simp
  show ?thesis
    apply (subst shortest.simps)
    apply (simp only: Let_def E P T FL VLO)
    apply simp
    done
qed

lemma shortest_miss:
  assumes z: "z = m * 10 ^ j" and m: "0 < m" "m mod 10 \<noteq> 0" and b: "z \<le> 2 ^ 53"
    and kj: "k + j < N"
  shows "shortest (Suc f) (of_int z) (int N) k = shortest f (of_int z) (int N) (Suc k)"
proof -
  define d where "d = N - k"
  define D :: rat where "D = 10 ^ d"
  define L where "L = z div 10 ^ d"
  from kj have dj: "j < d" and d1: "1 \<le> d" by (simp_all add: d_def)
  from m z have zpos: "0 < z" by simp
  have E: "int N - int k = int d" using kj by (simp add: d_def)
  have P: "(10::rat) powi int d = D" by (simp add: D_def)
  have "\<lfloor>(of_int z :: rat) / of_int (10 ^ d)\<rfloor> = z div 10 ^ d" by (rule floor_divide_of_int_eq)
  then have FL: "\<lfloor>(of_int z :: rat) / D\<rfloor> = L" by (simp add: D_def L_def)
  have nd: "\<not> 10 ^ d dvd z" using dvd_shift [OF m(2), of d j] dj by (simp add: z)
  have Lz: "L * 10 ^ d + z mod 10 ^ d = z" unfolding L_def by (rule div_mult_mod_eq)
  have md: "0 \<le> z mod 10 ^ d" "z mod 10 ^ d < 10 ^ d" by simp_all
  from nd have mn: "z mod 10 ^ d \<noteq> 0" by (simp add: dvd_eq_mod_eq_0)
  from zpos have L0: "0 \<le> L" by (simp add: L_def pos_imp_zdiv_nonneg_iff)
  then have a0: "0 \<le> L * 10 ^ d" by simp
  from Lz md mn have alt: "L * 10 ^ d < z" by linarith
  with a0 b have "\<bar>L * 10 ^ d\<bar> \<le> 2 ^ 53" by simp
  then have flL: "fl (of_int (L * 10 ^ d)) = Fin (of_int (L * 10 ^ d))" by (rule fl_int)
  have ne: "(of_int (L * 10 ^ d) :: rat) \<noteq> of_int z" using alt by (simp only: of_int_eq_iff)
  have LD: "(of_int L :: rat) * D = of_int (L * 10 ^ d)" by (simp add: D_def)
  have VLO: "(fl (of_int L * D) = Fin (of_int z)) = False"
    unfolding LD flL using ne by simp
  define c where "c = (L + 1) * 10 ^ d"
  have cD: "(of_int (L + 1) :: rat) * D = of_int c" by (simp add: D_def c_def)
  have "c = L * 10 ^ d + 10 ^ d" by (simp add: c_def algebra_simps)
  with Lz md have cz: "z < c" by linarith
  have "(10::int) ^ d = 10 * 10 ^ (d - 1)" using d1 by (cases d) simp_all
  then have ev: "even c" by (simp add: c_def)
  have "fl (of_int c) \<noteq> Fin (of_int z)"
  proof (cases "c \<le> 2 ^ 53")
    case True
    from cz zpos have "0 \<le> c" by simp
    with True have "\<bar>c\<bar> \<le> 2 ^ 53" by simp
    then have "fl (of_int c) = Fin (of_int c)" by (rule fl_int)
    moreover have "(of_int c :: rat) \<noteq> of_int z" using cz by (simp only: of_int_eq_iff)
    ultimately show ?thesis by simp
  next
    case False
    then have "2 ^ 53 + 1 \<le> c" by simp
    moreover have "c \<noteq> 2 ^ 53 + 1" using ev by auto
    ultimately have "2 ^ 53 + 2 \<le> c" by simp
    then have "(of_int (2 ^ 53 + 2) :: rat) \<le> of_int c" by (simp only: of_int_le_iff)
    then have "(2 ^ 53 + 2 :: rat) \<le> of_int c" by simp
    from fl_above [OF this] show ?thesis
    proof
      assume "fl (of_int c) = PosInf"
      then show ?thesis by simp
    next
      assume "\<exists>v. fl (of_int c) = Fin v \<and> 2 ^ 53 + 2 \<le> v"
      then obtain v where v: "fl (of_int c) = Fin v" "2 ^ 53 + 2 \<le> v" by blast
      from b have "(of_int z :: rat) \<le> of_int (2 ^ 53)" by (simp only: of_int_le_iff)
      then have "(of_int z :: rat) \<le> 2 ^ 53" by simp
      with v(2) have "v \<noteq> of_int z" by auto
      with v(1) show ?thesis by simp
    qed
  qed
  then have VHI: "(fl (of_int (L + 1) * D) = Fin (of_int z)) = False" unfolding cD by simp
  show ?thesis
    apply (subst shortest.simps)
    apply (simp only: Let_def E P FL VLO VHI)
    apply simp
    done
qed

lemma shortest_int:
  assumes z: "z = m * 10 ^ j" and m: "0 < m" "m mod 10 \<noteq> 0" and b: "z \<le> 2 ^ 53"
  shows "k + j \<le> N \<Longrightarrow> N - j - k \<le> fuel
    \<Longrightarrow> shortest fuel (of_int z) (int N) k = (m, int j)"
proof (induction fuel arbitrary: k)
  case 0
  then have "k + j = N" by simp
  from shortest_hit [OF z m(1) b this] show ?case .
next
  case (Suc fuel)
  show ?case
  proof (cases "k + j = N")
    case True
    from shortest_hit [OF z m(1) b this] show ?thesis .
  next
    case False
    with Suc.prems have lt: "k + j < N" by simp
    then have "Suc k + j \<le> N" by simp
    moreover from Suc.prems have "N - j - Suc k \<le> fuel" by simp
    ultimately have "shortest fuel (of_int z) (int N) (Suc k) = (m, int j)" by (rule Suc.IH)
    with shortest_miss [OF z m b lt] show ?thesis by simp
  qed
qed

lemma toString_pos_int:
  assumes zpos: "0 < z" and b: "z \<le> 2 ^ 53"
  shows "toString_pos (of_int z) = decimal z"
proof -
  from trailing_zeros [OF zpos] obtain m j where z: "z = m * 10 ^ j" and m: "0 < m" "m mod 10 \<noteq> 0"
    by blast
  define N where "N = ndigits 10 z"
  have N: "N = ndigits 10 m + j" unfolding N_def z using m(1) by (rule ndigits_shift)
  have mp: "0 < ndigits 10 m" using m(1) by (simp add: ndigits_pos)
  have il: "ilog 10 (of_int z) + 1 = int N"
    using ilog_int [OF zpos, of 10] by (simp add: N_def)
  have "10 ^ (N - 1) \<le> z" using ndigits_bounds [OF zpos, of 10] by (simp add: N_def)
  also have "z < 10 ^ 16" using b by simp
  finally have "N - 1 < 16" by (simp only: power_strict_increasing_iff)
  then have N17: "N \<le> 16" by simp
  have sh: "shortest 16 (of_int z) (int N) (Suc 0) = (m, int j)"
  proof (rule shortest_int [OF z m b])
    show "Suc 0 + j \<le> N" using mp by (simp add: N)
    show "N - j - Suc 0 \<le> 16" using N17 by simp
  qed
  have st: "strip_zeros 17 (m, int j) = (m, int j)"
    using m by (subst strip_zeros.simps) simp
  have len: "length (decimal m) = ndigits 10 m" using m(1) by (rule length_decimal)
  have "toString_pos (of_int z) = format (decimal m) (int (ndigits 10 m) + int j)"
    by (simp add: toString_pos_def il sh st len)
  also have "\<dots> = decimal m @ replicate j (CHR ''0'')"
    using N17 by (simp add: format_def len N)
  also have "\<dots> = decimal z" unfolding z using m(1) by (rule decimal_shift [symmetric])
  finally show ?thesis .
qed

lemma toString_int:
  assumes "\<bar>z\<bar> \<le> 2 ^ 53"
  shows "toString (Fin (of_int z)) = show_int z"
proof -
  consider "z = 0" | "0 < z" | "z < 0" by linarith
  then show ?thesis
  proof cases
    case 1
    then show ?thesis by (simp add: toString.simps show_int_def decimal.simps)
  next
    case 2
    with assms have "z \<le> 2 ^ 53" by simp
    from toString_pos_int [OF 2 this] 2 show ?thesis by (simp add: toString.simps show_int_def)
  next
    case 3
    with assms have "0 < - z" "- z \<le> 2 ^ 53" by simp_all
    from toString_pos_int [OF this] 3 show ?thesis by (simp add: toString.simps show_int_def)
  qed
qed

text \<open>
  The reduction of line 250 is exact on integral amounts as long as every partial sum
  stays within \<open>\<plusminus>2\<^sup>5\<^sup>3\<close>.
\<close>

lemma foldl_safe:
  assumes "map amount ls = map (\<lambda>z. Fin (of_int z)) zs"
    and "\<forall>ys. prefix ys zs \<longrightarrow> \<bar>s + sum_list ys\<bar> \<le> 2 ^ 53"
  shows "foldl (\<lambda>sum line. sum + amount line) (Fin (of_int s)) ls = Fin (of_int (s + sum_list zs))"
  using assms
proof (induction zs arbitrary: s ls)
  case Nil
  then show ?case by simp
next
  case (Cons z zs)
  from Cons.prems(1) obtain l ls' where ls: "ls = l # ls'" and l: "amount l = Fin (of_int z)"
    and m: "map amount ls' = map (\<lambda>z. Fin (of_int z)) zs"
    by (cases ls) auto
  have "prefix [z] (z # zs)" by simp
  with Cons.prems(2) have "\<bar>s + sum_list [z]\<bar> \<le> 2 ^ 53" by blast
  then have b: "\<bar>s + z\<bar> \<le> 2 ^ 53" by simp
  have step: "Fin (of_int s) + amount l = Fin (of_int (s + z))"
    unfolding l using fl_int [OF b] by simp
  have p: "\<forall>ys. prefix ys zs \<longrightarrow> \<bar>(s + z) + sum_list ys\<bar> \<le> 2 ^ 53"
  proof (intro allI impI)
    fix ys assume "prefix ys zs"
    then have "prefix (z # ys) (z # zs)" by simp
    with Cons.prems(2) have "\<bar>s + sum_list (z # ys)\<bar> \<le> 2 ^ 53" by blast
    then show "\<bar>(s + z) + sum_list ys\<bar> \<le> 2 ^ 53" by (simp add: add.assoc)
  qed
  from Cons.IH [OF m p] show ?case by (simp add: ls step add.assoc)
qed

lemma sum_amounts_safe:
  assumes "map amount ls = map (\<lambda>z. Fin (of_int z)) zs"
    and "\<forall>ys\<in>set (prefixes zs). \<bar>sum_list ys\<bar> \<le> 2 ^ 53"
  shows "sum_amounts ls = Fin (of_int (sum_list zs))"
proof -
  from assms(2) have "\<forall>ys. prefix ys zs \<longrightarrow> \<bar>0 + sum_list ys\<bar> \<le> 2 ^ 53"
    by (simp add: in_set_prefixes)
  from foldl_safe [OF assms(1) this] show ?thesis
    by (simp add: sum_amounts_def zero_number_def)
qed

section \<open>Basic facts\<close>

lemma toString_150: "toString (Fin 150) = ''150''"
  by code_simp

lemma sum_amounts_150: "sum_amounts [consulting, expenses] = Fin 150"
  by code_simp

lemma set_status_fields [simp]:
  "approvals (set_status r s w) = approvals w"
  "workflows (set_status r s w) = workflows w"
  "console (set_status r s w) = console w"
  "next_ref (set_status r s w) = next_ref w"
  "objs (set_status r s w) = (objs w)(r := (objs w r)\<lparr>status := s\<rparr>)"
  by (simp_all add: set_status_def)

lemma set_result_fields [simp]:
  "approvals (set_result r s w) = approvals w"
  "workflows (set_result r s w) = workflows w"
  "console (set_result r s w) = console w"
  "next_ref (set_result r s w) = next_ref w"
  "objs (set_result r s w) = (objs w)(r := (objs w r)\<lparr>result := Some s\<rparr>)"
  by (simp_all add: set_result_def)

lemma fst_processPayment [simp]: "fst (processPayment line out) = payment_text line"
  by (simp add: processPayment_def payment_text_def)

lemma approvals_submit:
  "approvals (snd (submit_invoice d i ls w)) = (approvals w)(i \<mapsto> next_ref w)"
  by (simp add: submit_invoice_def Let_def)

lemma objs_submit:
  "objs (snd (submit_invoice d i ls w)) =
     (objs w)(next_ref w := \<lparr>status = pending,
        invoice = \<lparr>inv_id = i, lines = ls, totalAmount = sum_amounts ls\<rparr>,
        result = None\<rparr>)"
  by (simp add: submit_invoice_def Let_def)

lemma check_known:
  "approvals w i = Some r \<Longrightarrow>
   check_invoice_status i w = (Inr (statusText i (objs w r)), w)"
  by (simp add: check_invoice_status_def)

lemma submit_invoice_total:
  "get_state (snd (submit_invoice d i ls w)) i =
     Some \<lparr>status = pending,
           invoice = \<lparr>inv_id = i, lines = ls, totalAmount = sum_amounts ls\<rparr>,
           result = None\<rparr>
   \<and> fst (submit_invoice d i ls w) =
       Inr (''Invoice '' @ i @ '' submitted for approval. Total: $''
            @ toString (sum_amounts ls)
            @ ''\<newline>Use approve_invoice or reject_invoice to respond.'')
   \<and> fst (check_invoice_status i (snd (submit_invoice d i ls w))) =
       Inr (''Invoice '' @ i @ '':\<newline>Status: pending\<newline>Total Amount: $''
            @ toString (sum_amounts ls) @ ''\<newline>'')"
proof -
  let ?w = "snd (submit_invoice d i ls w)"
  have a: "approvals ?w i = Some (next_ref w)"
    by (simp add: approvals_submit)
  have o: "objs ?w (next_ref w) = \<lparr>status = pending,
        invoice = \<lparr>inv_id = i, lines = ls, totalAmount = sum_amounts ls\<rparr>,
        result = None\<rparr>"
    by (simp add: objs_submit)
  have 1: "get_state ?w i = Some \<lparr>status = pending,
           invoice = \<lparr>inv_id = i, lines = ls, totalAmount = sum_amounts ls\<rparr>,
           result = None\<rparr>"
    by (simp add: get_state_def a o)
  have 2: "fst (submit_invoice d i ls w) =
       Inr (''Invoice '' @ i @ '' submitted for approval. Total: $''
            @ toString (sum_amounts ls)
            @ ''\<newline>Use approve_invoice or reject_invoice to respond.'')"
    by (simp add: submit_invoice_def Let_def)
  have 3: "fst (check_invoice_status i ?w) =
       Inr (''Invoice '' @ i @ '':\<newline>Status: pending\<newline>Total Amount: $''
            @ toString (sum_amounts ls) @ ''\<newline>'')"
    by (simp add: check_known [OF a] o statusText_def)
  from 1 2 3 show ?thesis by blast
qed

lemma waiting_fields:
  "workflows (waiting s) ! 0 =
     \<lparr>wf_id = ''invoice-INV-1'', wf_invoice = inv1, wf_pc = Polling 0, ctx_runs = []\<rparr>"
  "length (workflows (waiting s)) = 1"
  "approvals (waiting s) ''INV-1'' = Some 0"
  "objs (waiting s) 0 = \<lparr>status = s, invoice = inv1, result = None\<rparr>"
  "console (waiting s) = []"
  by (simp_all add: waiting_def)

lemma inv1_fields:
  "inv_id inv1 = ''INV-1''" "lines inv1 = [consulting, expenses]" "totalAmount inv1 = Fin 150"
  by (simp_all add: inv1_def)

subsection \<open>The world is changed by an execution only through the heap and the console\<close>

lemma complete_frame:
  "approvals (snd (complete r rs x w)) = approvals w"
  "workflows (snd (complete r rs x w)) = workflows w"
  by (simp_all add: complete_def)

lemma pay_frame:
  "approvals (snd (pay r rs rest x w)) = approvals w"
  "workflows (snd (pay r rs rest x w)) = workflows w"
  by (simp_all add: pay_def complete_frame Let_def case_prod_beta split: list.splits)

lemma after_loop_frame:
  "approvals (snd (after_loop x w)) = approvals w"
  "workflows (snd (after_loop x w)) = workflows w"
  by (simp_all add: after_loop_def complete_frame Let_def split: option.splits)

lemma loop_head_frame:
  "approvals (snd (loop_head now st x w)) = approvals w"
  "workflows (snd (loop_head now st x w)) = workflows w"
  by (simp_all add: loop_head_def after_loop_frame split: option.splits)

lemma enter_frame:
  "approvals (snd (enter now x w)) = approvals w"
  "workflows (snd (enter now x w)) = workflows w"
  by (simp_all add: enter_def loop_head_frame split: option.splits)

lemma then_callback_frame:
  "approvals (snd (then_callback s x w)) = approvals w"
  "workflows (snd (then_callback s x w)) = workflows w"
  by (simp_all add: then_callback_def split: option.splits)

lemma resume_frame:
  "approvals (snd (resume now x w)) = approvals w"
  "workflows (snd (resume now x w)) = workflows w"
  by (simp_all add: resume_def enter_frame loop_head_frame pay_frame then_callback_frame
      split: pc.splits)

lemma step_Resume:
  "n < length (workflows w) \<Longrightarrow>
   step d (Resume n now) w =
     (snd (resume now (workflows w ! n) w))
       \<lparr>workflows := (workflows w)[n := fst (resume now (workflows w ! n) w)]\<rparr>"
  by (simp add: step_def case_prod_beta resume_frame)

lemma step_Resume_fields:
  assumes "n < length (workflows w)"
  shows "objs (step d (Resume n now) w) = objs (snd (resume now (workflows w ! n) w))"
    and "approvals (step d (Resume n now) w) = approvals w"
    and "console (step d (Resume n now) w) = console (snd (resume now (workflows w ! n) w))"
    and "workflows (step d (Resume n now) w) ! n = fst (resume now (workflows w ! n) w)"
    and "length (workflows (step d (Resume n now) w)) = length (workflows w)"
  using assms by (simp_all add: step_Resume resume_frame)

subsection \<open>The segments of the approval gate\<close>

lemma resume_timeout_pending:
  assumes "wf_pc x = Polling st" "timeout \<le> now - st"
    "approvals w (inv_id (wf_invoice x)) = Some r" "status (objs w r) = pending"
  shows "resume now x w =
    (x\<lparr>wf_pc := Returned ''REJECTED due to timeout''\<rparr>, set_status r rejected w)"
  using assms by (simp add: resume_def loop_head_def after_loop_def)

lemma resume_user_rejected:
  assumes "wf_pc x = Polling st" "now - st < timeout"
    "approvals w (inv_id (wf_invoice x)) = Some r" "status (objs w r) = rejected"
  shows "resume now x w = (x\<lparr>wf_pc := Returned ''REJECTED by user''\<rparr>, w)"
  using assms by (simp add: resume_def loop_head_def)

lemma resume_late_rejected:
  assumes "wf_pc x = Polling st" "timeout \<le> now - st"
    "approvals w (inv_id (wf_invoice x)) = Some r" "status (objs w r) = rejected"
  shows "resume now x w = (x\<lparr>wf_pc := Returned ''REJECTED''\<rparr>, w)"
  using assms by (simp add: resume_def loop_head_def after_loop_def)

lemma resume_returned:
  assumes "wf_pc x = Returned s" "approvals w (inv_id (wf_invoice x)) = Some r"
  shows "resume now x w = (x\<lparr>wf_pc := Finished s\<rparr>, set_result r s w)"
  using assms by (simp add: resume_def then_callback_def)

lemma approve_pending:
  "approvals w i = Some r \<Longrightarrow> status (objs w r) = pending \<Longrightarrow>
   approve_invoice i w =
     (Inr (''Invoice '' @ i @ '' approved! Processing payments...''), set_status r approved w)"
  by (simp add: approve_invoice_def)

lemma resume_approved:
  assumes "wf_pc x = Polling st"
    "approvals w (inv_id (wf_invoice x)) = Some r" "status (objs w r) = approved"
  shows "resume now x w =
    (if lines (wf_invoice x) = [] then complete r [] x (set_status r processing w)
     else (x\<lparr>wf_pc := Paying r [] (lines (wf_invoice x))\<rparr>, set_status r processing w))"
  using assms by (simp add: resume_def loop_head_def after_loop_def Let_def)

lemma resume_start:
  assumes "wf_pc x = Start" "approvals w (inv_id (wf_invoice x)) = Some r"
  shows "resume now x w = (x\<lparr>wf_pc := Polling now\<rparr>, set_status r pending w)"
  using assms by (simp add: resume_def enter_def loop_head_def timeout_def)

lemma statusText_suffix: "result state = Some s \<Longrightarrow> suffix s (statusText i state)"
  by (simp add: statusText_def suffix_def)

lemma resume_still_pending:
  assumes "wf_pc x = Polling st" "now - st < timeout"
    "approvals w (inv_id (wf_invoice x)) = Some r" "status (objs w r) = pending"
  shows "resume now x w = (x, w)"
proof -
  from assms(1) have "x\<lparr>wf_pc := Polling st\<rparr> = x" by simp
  with assms show ?thesis by (simp add: resume_def loop_head_def)
qed

lemma step_still_pending:
  assumes "n < length (workflows w)" "wf_pc (workflows w ! n) = Polling st"
    "now - st < timeout"
    "approvals w (inv_id (wf_invoice (workflows w ! n))) = Some r"
    "status (objs w r) = pending"
  shows "step d (Resume n now) w = w"
  using assms by (simp add: step_Resume resume_still_pending)

lemma polls_still_pending:
  assumes "n < length (workflows w)" "wf_pc (workflows w ! n) = Polling st"
    "approvals w (inv_id (wf_invoice (workflows w ! n))) = Some r"
    "status (objs w r) = pending"
    "list_all (\<lambda>t. t - st < timeout) early"
  shows "exec d (map (Resume n) early) w = w"
  using assms(5)
proof (induction early)
  case Nil
  then show ?case by simp
next
  case (Cons t early)
  then have "t - st < timeout" by simp
  with assms have "step d (Resume n t) w = w" by (simp add: step_still_pending)
  with Cons show ?case by simp
qed

lemma exec_append: "exec d (es @ fs) w = exec d fs (exec d es w)"
  by (induction es arbitrary: w) simp_all

text \<open>
  With wake-ups at least \<open>pollInterval\<close> apart, fewer than 300 of them fall before the
  deadline: the polling loop ends.
\<close>

lemma spaced_lower_bound:
  "sorted_wrt (\<lambda>a b. a + p \<le> b) (s # ts) \<Longrightarrow> k < length ts \<Longrightarrow> s + (int k + 1) * p \<le> ts ! k"
proof (induction ts arbitrary: s k)
  case Nil
  then show ?case by simp
next
  case (Cons t ts)
  show ?case
  proof (cases k)
    case 0
    with Cons.prems show ?thesis by simp
  next
    case (Suc j)
    from Cons.prems have sp: "sorted_wrt (\<lambda>a b. a + p \<le> b) (t # ts)" and st: "s + p \<le> t"
      by simp_all
    from Cons.prems Suc have j: "j < length ts" by simp
    from sp j have "t + (int j + 1) * p \<le> ts ! j" by (rule Cons.IH)
    with st Suc show ?thesis by (simp add: algebra_simps)
  qed
qed

lemma polls_before_deadline:
  assumes "sorted_wrt (\<lambda>a b. a + pollInterval \<le> b) (st # ts)"
    and "list_all (\<lambda>t. t - st < timeout) ts"
  shows "length ts < 300"
proof (rule ccontr)
  assume "\<not> length ts < 300"
  then have k: "299 < length ts" by simp
  with assms(1) have "st + (int 299 + 1) * pollInterval \<le> ts ! 299"
    by (rule spaced_lower_bound)
  moreover from assms(2) k have "ts ! 299 - st < timeout" by (simp add: list_all_length)
  ultimately show False by (simp add: pollInterval_def timeout_def)
qed

text \<open>Two resumptions: the segment that returns \<open>s\<close>, then the callback.\<close>

lemma return_then_callback:
  assumes n: "n < length (workflows w)"
    and r: "approvals w (inv_id (wf_invoice (workflows w ! n))) = Some r"
    and res: "resume now (workflows w ! n) w = ((workflows w ! n)\<lparr>wf_pc := Returned s\<rparr>, w1)"
    and s: "s \<noteq> []"
  shows "fst (check_invoice_status (inv_id (wf_invoice (workflows w ! n)))
            (exec d [Resume n now, Resume n now'] w)) =
         Inr (''Invoice '' @ inv_id (wf_invoice (workflows w ! n)) @ '':\<newline>''
              @ ''Status: '' @ status_text (status (objs w1 r)) @ ''\<newline>''
              @ ''Total Amount: $'' @ toString (totalAmount (invoice (objs w1 r)))
              @ ''\<newline>'' @ ''\<newline>Result:\<newline>'' @ s)"
proof -
  let ?x = "workflows w ! n"
  let ?i = "inv_id (wf_invoice ?x)"
  let ?wa = "step d (Resume n now) w"
  let ?wb = "step d (Resume n now') ?wa"
  from res have w1: "snd (resume now ?x w) = w1" by simp
  have na: "n < length (workflows ?wa)" using n by (simp add: step_Resume_fields)
  have xa: "workflows ?wa ! n = ?x\<lparr>wf_pc := Returned s\<rparr>"
    using n res by (simp add: step_Resume_fields)
  have aa: "approvals ?wa = approvals w" using n by (simp add: step_Resume_fields)
  have oa: "objs ?wa = objs w1" using n w1 by (simp add: step_Resume_fields)
  have rb: "resume now' (workflows ?wa ! n) ?wa =
      (?x\<lparr>wf_pc := Finished s\<rparr>, set_result r s ?wa)"
    using xa aa r by (simp add: resume_returned)
  have ab: "approvals ?wb = approvals w" using na aa by (simp add: step_Resume_fields)
  have ob: "objs ?wb r = (objs w1 r)\<lparr>result := Some s\<rparr>"
    using na rb oa by (simp add: step_Resume_fields)
  have "fst (check_invoice_status ?i ?wb) = Inr (statusText ?i (objs ?wb r))"
    using ab r by (simp add: check_known)
  then show ?thesis using ob s by (simp add: statusText_def)
qed

lemma callback_state:
  assumes n: "n < length (workflows w)"
    and r: "approvals w (inv_id (wf_invoice (workflows w ! n))) = Some r"
    and res: "resume now (workflows w ! n) w = ((workflows w ! n)\<lparr>wf_pc := Returned s\<rparr>, w1)"
  shows "approvals (exec d [Resume n now, Resume n now'] w) = approvals w"
    and "objs (exec d [Resume n now, Resume n now'] w) r = (objs w1 r)\<lparr>result := Some s\<rparr>"
proof -
  let ?x = "workflows w ! n"
  let ?wa = "step d (Resume n now) w"
  let ?wb = "step d (Resume n now') ?wa"
  from res have w1: "snd (resume now ?x w) = w1" by simp
  have na: "n < length (workflows ?wa)" using n by (simp add: step_Resume_fields)
  have xa: "workflows ?wa ! n = ?x\<lparr>wf_pc := Returned s\<rparr>"
    using n res by (simp add: step_Resume_fields)
  have aa: "approvals ?wa = approvals w" using n by (simp add: step_Resume_fields)
  have oa: "objs ?wa = objs w1" using n w1 by (simp add: step_Resume_fields)
  have rb: "resume now' (workflows ?wa ! n) ?wa =
      (?x\<lparr>wf_pc := Finished s\<rparr>, set_result r s ?wa)"
    using xa aa r by (simp add: resume_returned)
  show "approvals (exec d [Resume n now, Resume n now'] w) = approvals w"
    using na aa by (simp add: step_Resume_fields)
  show "objs (exec d [Resume n now, Resume n now'] w) r = (objs w1 r)\<lparr>result := Some s\<rparr>"
    using na rb oa by (simp add: step_Resume_fields)
qed

subsection \<open>Every execution of a reachable world is as \<open>wf_ok\<close> says\<close>

lemma complete_ok:
  "rs = map payment_text (lines (wf_invoice x)) \<Longrightarrow> ctx_runs x = lines (wf_invoice x)
   \<Longrightarrow> wf_ok (fst (complete r rs x w))"
  by (simp add: complete_def wf_ok_def settled_def)

lemma pay_ok: "wf_ok x \<Longrightarrow> wf_pc x = Paying r rs rest \<Longrightarrow> wf_ok (fst (pay r rs rest x w))"
proof (cases rest)
  case Nil
  assume "wf_ok x" "wf_pc x = Paying r rs rest"
  with Nil show ?thesis by (simp add: wf_ok_def)
next
  case (Cons line rest')
  assume ok: "wf_ok x" and pc: "wf_pc x = Paying r rs rest"
  from ok pc Cons have rs: "rs = map payment_text (ctx_runs x)"
    and ls: "ctx_runs x @ line # rest' = lines (wf_invoice x)"
    by (simp_all add: wf_ok_def)
  show ?thesis
  proof (cases "rest' = []")
    case True
    let ?x1 = "x\<lparr>ctx_runs := ctx_runs x @ [line]\<rparr>"
    from ls True have "map payment_text (ctx_runs x) @ [payment_text line]
        = map payment_text (lines (wf_invoice x))"
      by (simp flip: ls)
    with rs ls True have "wf_ok (fst (complete r (rs @ [payment_text line]) ?x1
                     (w\<lparr>console := snd (processPayment line (console w))\<rparr>)))"
      by (intro complete_ok) simp_all
    with Cons True show ?thesis
      by (simp add: pay_def Let_def case_prod_beta)
  next
    case False
    with Cons rs ls show ?thesis
      by (simp add: pay_def Let_def wf_ok_def case_prod_beta)
  qed
qed

lemma after_loop_ok: "ctx_runs x = [] \<Longrightarrow> wf_ok (fst (after_loop x w))"
  by (auto simp: after_loop_def Let_def wf_ok_def settled_def rejections_def complete_def
      split: option.splits)

lemma polling_ok: "ctx_runs x = [] \<Longrightarrow> wf_ok (x\<lparr>wf_pc := Polling st\<rparr>)"
  by (simp add: wf_ok_def)

lemma rejected_ok:
  "ctx_runs x = [] \<Longrightarrow> s \<in> set rejections \<Longrightarrow> wf_ok (x\<lparr>wf_pc := Returned s\<rparr>)"
  by (simp add: wf_ok_def settled_def)

lemma loop_head_ok: "ctx_runs x = [] \<Longrightarrow> wf_ok (fst (loop_head now st x w))"
  by (simp add: loop_head_def after_loop_ok polling_ok rejected_ok rejections_def
      split: option.splits)

lemma resume_ok: "wf_ok x \<Longrightarrow> wf_ok (fst (resume now x w))"
proof (cases "wf_pc x")
  case Start
  assume "wf_ok x"
  with Start have "ctx_runs x = []" by (simp add: wf_ok_def)
  with Start show ?thesis by (simp add: resume_def enter_def loop_head_ok)
next
  case (Polling st)
  assume "wf_ok x"
  with Polling have "ctx_runs x = []" by (simp add: wf_ok_def)
  with Polling show ?thesis by (simp add: resume_def loop_head_ok)
next
  case (Paying r rs rest)
  assume "wf_ok x"
  with Paying show ?thesis by (simp add: resume_def pay_ok)
next
  case (Returned s)
  assume "wf_ok x"
  with Returned show ?thesis by (simp add: resume_def then_callback_def wf_ok_def settled_def)
next
  case (Finished s)
  assume "wf_ok x"
  with Finished show ?thesis by (simp add: resume_def)
qed

lemma attach_ok: "wf_ok x \<Longrightarrow> wf_ok (attach x)"
  by (auto simp: attach_def wf_ok_def settled_def split: pc.splits)

lemma fresh_ok: "wf_ok \<lparr>wf_id = wid, wf_invoice = iv, wf_pc = Start, ctx_runs = []\<rparr>"
  by (simp add: wf_ok_def)

lemma durable_ok:
  "list_all wf_ok wfs \<Longrightarrow> list_all wf_ok (durableProcessInvoice d wid iv wfs)"
  by (auto simp: durableProcessInvoice_def list_all_iff attach_ok fresh_ok)

lemma handler_workflows:
  "workflows (snd (approve_invoice i w)) = workflows w"
  "workflows (snd (reject_invoice i w)) = workflows w"
  "workflows (snd (check_invoice_status i w)) = workflows w"
  by (simp_all add: approve_invoice_def reject_invoice_def check_invoice_status_def
      split: option.splits)

lemma call_tool_ok:
  "list_all wf_ok (workflows w) \<Longrightarrow> list_all wf_ok (workflows (snd (call_tool d p w)))"
  by (simp add: call_tool_def handler_workflows submit_invoice_def Let_def durable_ok)

lemma step_ok: "list_all wf_ok (workflows w) \<Longrightarrow> list_all wf_ok (workflows (step d e w))"
proof (cases e)
  case (Call p)
  assume "list_all wf_ok (workflows w)"
  with Call show ?thesis by (simp add: step_def call_tool_ok)
next
  case (Resume n now)
  assume ok: "list_all wf_ok (workflows w)"
  show ?thesis
  proof (cases "n < length (workflows w)")
    case True
    with ok have "wf_ok (workflows w ! n)" by (simp add: list_all_length)
    then have "wf_ok (fst (resume now (workflows w ! n) w))" by (rule resume_ok)
    with ok True Resume show ?thesis
      by (simp add: step_def resume_frame list_all_length nth_list_update case_prod_beta)
  next
    case False
    with ok Resume show ?thesis by (simp add: step_def)
  qed
qed

lemma exec_ok: "list_all wf_ok (workflows w) \<Longrightarrow> list_all wf_ok (workflows (exec d es w))"
  by (induction es arbitrary: w) (simp_all add: step_ok)

lemma reachable_ok: "x \<in> set (workflows (exec d es initial)) \<Longrightarrow> wf_ok x"
proof -
  have "list_all wf_ok (workflows (exec d es initial))"
    by (rule exec_ok) (simp add: initial_def)
  then show "x \<in> set (workflows (exec d es initial)) \<Longrightarrow> wf_ok x"
    by (simp add: list_all_iff)
qed

lemma rejection_not_completed: "s \<in> set rejections \<Longrightarrow> s \<noteq> ''COMPLETED\<newline>'' @ t"
  by (auto simp: rejections_def)

subsection \<open>An id is known once it has been submitted\<close>

lemma approvals_step:
  "approvals (step d e w) i = None \<longleftrightarrow> approvals w i = None \<and> \<not> is_submit i e"
proof (cases e)
  case (Call p)
  then show ?thesis
    by (simp add: step_def call_tool_def is_submit_def approvals_submit approve_invoice_def
        reject_invoice_def check_invoice_status_def split: option.splits)
next
  case (Resume n now)
  then show ?thesis
    by (cases "n < length (workflows w)") (simp_all add: step_Resume_fields is_submit_def, simp add: step_def)
qed

lemma unknown_iff_never_submitted:
  "approvals (exec d es w) i = None \<longleftrightarrow> approvals w i = None \<and> \<not> list_ex (is_submit i) es"
  by (induction es arbitrary: w) (auto simp: approvals_step)

subsection \<open>The steps of a steady execution move statuses forward\<close>

lemma forward_refl [simp]: "forward s s"
  by (cases s) simp_all

lemma forward_trans: "forward a b \<Longrightarrow> forward b c \<Longrightarrow> forward a c"
  by (cases a; cases b; cases c; simp)

lemma forward_step: "forward a b \<Longrightarrow> transition b c \<Longrightarrow> forward a c"
  by (cases a; cases b; cases c; simp)

lemma forward_to_completed: "forward processing s \<Longrightarrow> forward s completed"
  by (cases s) simp_all

lemma transitions_forward: "transition\<^sup>*\<^sup>* s t \<Longrightarrow> forward s t"
  by (induction rule: rtranclp_induct) (auto intro: forward_step)

lemma forward_transitions: "forward s t \<Longrightarrow> transition\<^sup>*\<^sup>* s t"
proof -
  have pa: "transition\<^sup>*\<^sup>* pending approved" by (rule r_into_rtranclp) simp
  have pr: "transition\<^sup>*\<^sup>* pending rejected" by (rule r_into_rtranclp) simp
  have ap: "transition\<^sup>*\<^sup>* approved processing" by (rule r_into_rtranclp) simp
  have pc: "transition\<^sup>*\<^sup>* processing completed" by (rule r_into_rtranclp) simp
  from ap pc have ac: "transition\<^sup>*\<^sup>* approved completed" by (rule rtranclp_trans)
  from pa ap have pp: "transition\<^sup>*\<^sup>* pending processing" by (rule rtranclp_trans)
  from pa ac have pd: "transition\<^sup>*\<^sup>* pending completed" by (rule rtranclp_trans)
  assume "forward s t"
  then show ?thesis
    using pa pr ap pc ac pp pd by (cases s; cases t) simp_all
qed

lemma forward_iff_transitions: "forward s t \<longleftrightarrow> transition\<^sup>*\<^sup>* s t"
  by (blast intro: forward_transitions transitions_forward)

lemma holds_processing_workflows [simp]:
  "holds_processing (w\<lparr>workflows := ws\<rparr>) = holds_processing w"
  by (rule ext) (simp add: holds_processing_def split: pc.splits)

lemma approve_forward:
  "forward (status (objs w r)) (status (objs (snd (approve_invoice i w)) r))"
  by (simp add: approve_invoice_def split: option.splits)

lemma reject_forward:
  "forward (status (objs w r)) (status (objs (snd (reject_invoice i w)) r))"
  by (simp add: reject_invoice_def split: option.splits)

lemma after_loop_forward:
  "forward (status (objs w r)) (status (objs (snd (after_loop x w)) r))"
  by (simp add: after_loop_def complete_def Let_def split: option.splits)

lemma loop_head_forward:
  "forward (status (objs w r)) (status (objs (snd (loop_head now st x w)) r))"
  by (simp add: loop_head_def after_loop_forward split: option.splits)

lemma pay_forward:
  "forward processing (status (objs w q)) \<Longrightarrow>
   forward (status (objs w r)) (status (objs (snd (pay q rs rest x w)) r))"
  by (simp add: pay_def complete_def Let_def case_prod_beta forward_to_completed
      split: list.splits)

lemma then_callback_forward:
  "forward (status (objs w r)) (status (objs (snd (then_callback s x w)) r))"
  by (simp add: then_callback_def split: option.splits)

lemma resume_forward:
  assumes "wf_pc x \<noteq> Start" and "holds_processing w x"
  shows "forward (status (objs w r)) (status (objs (snd (resume now x w)) r))"
proof (cases "wf_pc x")
  case Start
  with assms show ?thesis by simp
next
  case (Polling st)
  then show ?thesis by (simp add: resume_def loop_head_forward)
next
  case (Paying q rs rest)
  with assms have "forward processing (status (objs w q))"
    by (simp add: holds_processing_def)
  with Paying show ?thesis by (simp add: resume_def pay_forward)
next
  case (Returned s)
  then show ?thesis by (simp add: resume_def then_callback_forward)
next
  case (Finished s)
  then show ?thesis by (simp add: resume_def)
qed

lemma after_loop_holds: "holds_processing (snd (after_loop x w)) (fst (after_loop x w))"
  by (simp add: after_loop_def complete_def Let_def holds_processing_def split: option.splits)

lemma loop_head_holds:
  "holds_processing (snd (loop_head now st x w)) (fst (loop_head now st x w))"
  by (simp add: loop_head_def after_loop_holds split: option.splits)
    (simp add: holds_processing_def)

lemma pay_holds:
  "forward processing (status (objs w q)) \<Longrightarrow>
   holds_processing (snd (pay q rs rest x w)) (fst (pay q rs rest x w))"
  by (simp add: pay_def complete_def Let_def case_prod_beta holds_processing_def
      split: list.splits)

lemma resume_holds:
  assumes "wf_pc x \<noteq> Start" and "holds_processing w x"
  shows "holds_processing (snd (resume now x w)) (fst (resume now x w))"
proof (cases "wf_pc x")
  case Start
  with assms show ?thesis by simp
next
  case (Polling st)
  then show ?thesis by (simp add: resume_def loop_head_holds)
next
  case (Paying q rs rest)
  with assms have "forward processing (status (objs w q))"
    by (simp add: holds_processing_def)
  with Paying show ?thesis by (simp add: resume_def pay_holds)
next
  case (Returned s)
  then show ?thesis by (simp add: resume_def then_callback_def holds_processing_def)
next
  case (Finished s)
  then show ?thesis by (simp add: resume_def holds_processing_def)
qed

lemma after_loop_started: "wf_pc (fst (after_loop x w)) \<noteq> Start"
  by (simp add: after_loop_def complete_def Let_def split: option.splits)

lemma resume_started: "wf_pc x \<noteq> Start \<Longrightarrow> wf_pc (fst (resume now x w)) \<noteq> Start"
  by (cases "wf_pc x")
    (simp_all add: resume_def loop_head_def after_loop_started pay_def complete_def Let_def
       case_prod_beta then_callback_def split: option.splits list.splits)

subsection \<open>Every entry belongs to one id\<close>

lemma complete_keeps:
  "next_ref (snd (complete q rs x w)) = next_ref w"
  "invoice (objs (snd (complete q rs x w)) r) = invoice (objs w r)"
  "r \<noteq> q \<Longrightarrow> objs (snd (complete q rs x w)) r = objs w r"
  "wf_invoice (fst (complete q rs x w)) = wf_invoice x"
  by (simp_all add: complete_def)

lemma pay_keeps:
  "next_ref (snd (pay q rs rest x w)) = next_ref w"
  "invoice (objs (snd (pay q rs rest x w)) r) = invoice (objs w r)"
  "r \<noteq> q \<Longrightarrow> objs (snd (pay q rs rest x w)) r = objs w r"
  "wf_invoice (fst (pay q rs rest x w)) = wf_invoice x"
  by (simp_all add: pay_def complete_keeps Let_def case_prod_beta split: list.splits)

lemma after_loop_keeps:
  "next_ref (snd (after_loop x w)) = next_ref w"
  "invoice (objs (snd (after_loop x w)) r) = invoice (objs w r)"
  "approvals w (inv_id (wf_invoice x)) \<noteq> Some r \<Longrightarrow> objs (snd (after_loop x w)) r = objs w r"
  "wf_invoice (fst (after_loop x w)) = wf_invoice x"
  by (auto simp: after_loop_def complete_def Let_def split: option.splits)

lemma loop_head_keeps:
  "next_ref (snd (loop_head now st x w)) = next_ref w"
  "invoice (objs (snd (loop_head now st x w)) r) = invoice (objs w r)"
  "approvals w (inv_id (wf_invoice x)) \<noteq> Some r \<Longrightarrow>
     objs (snd (loop_head now st x w)) r = objs w r"
  "wf_invoice (fst (loop_head now st x w)) = wf_invoice x"
  by (auto simp: loop_head_def after_loop_keeps split: option.splits)

lemma enter_keeps:
  "next_ref (snd (enter now x w)) = next_ref w"
  "invoice (objs (snd (enter now x w)) r) = invoice (objs w r)"
  "approvals w (inv_id (wf_invoice x)) \<noteq> Some r \<Longrightarrow> objs (snd (enter now x w)) r = objs w r"
  "wf_invoice (fst (enter now x w)) = wf_invoice x"
  by (auto simp: enter_def loop_head_keeps split: option.splits)

lemma then_callback_keeps:
  "next_ref (snd (then_callback s x w)) = next_ref w"
  "invoice (objs (snd (then_callback s x w)) r) = invoice (objs w r)"
  "approvals w (inv_id (wf_invoice x)) \<noteq> Some r \<Longrightarrow>
     objs (snd (then_callback s x w)) r = objs w r"
  "wf_invoice (fst (then_callback s x w)) = wf_invoice x"
  by (auto simp: then_callback_def split: option.splits)

lemma resume_keeps:
  "next_ref (snd (resume now x w)) = next_ref w"
  "invoice (objs (snd (resume now x w)) r) = invoice (objs w r)"
  "wf_invoice (fst (resume now x w)) = wf_invoice x"
  by (simp_all add: resume_def enter_keeps loop_head_keeps pay_keeps then_callback_keeps
      split: pc.splits)

lemma resume_touches:
  assumes "approvals w (inv_id (wf_invoice x)) \<noteq> Some r"
    and "\<And>q rs rest. wf_pc x = Paying q rs rest \<Longrightarrow> q \<noteq> r"
  shows "objs (snd (resume now x w)) r = objs w r"
proof (cases "wf_pc x")
  case Start
  with assms(1) show ?thesis by (simp add: resume_def enter_keeps)
next
  case (Polling st)
  with assms(1) show ?thesis by (simp add: resume_def loop_head_keeps)
next
  case (Paying q rs rest)
  with assms(2) have "r \<noteq> q" by blast
  with Paying show ?thesis by (simp add: resume_def pay_keeps)
next
  case (Returned s)
  with assms(1) show ?thesis by (simp add: resume_def then_callback_keeps)
next
  case (Finished s)
  then show ?thesis by (simp add: resume_def)
qed

lemma held_owned_frame:
  assumes "held_owned w x" and "next_ref w \<le> next_ref w'"
    and "\<And>r. r < next_ref w \<Longrightarrow> invoice (objs w' r) = invoice (objs w r)"
  shows "held_owned w' x"
  using assms by (auto simp: held_owned_def split: pc.splits)

lemma held_owned_workflows [simp]: "held_owned (w\<lparr>workflows := ws\<rparr>) = held_owned w"
  by (rule ext) (simp add: held_owned_def split: pc.splits)

lemma after_loop_paying:
  "wf_pc (fst (after_loop x w)) = Paying q rs rest \<Longrightarrow>
   approvals w (inv_id (wf_invoice x)) = Some q"
  by (auto simp: after_loop_def complete_def Let_def split: option.splits if_splits)

lemma loop_head_paying:
  "wf_pc (fst (loop_head now st x w)) = Paying q rs rest \<Longrightarrow>
   approvals w (inv_id (wf_invoice x)) = Some q"
  by (auto simp: loop_head_def split: option.splits if_splits dest: after_loop_paying)

lemma pay_paying:
  "wf_pc (fst (pay q rs rest x w)) = Paying q' rs' rest' \<Longrightarrow> q' = q"
  by (auto simp: pay_def complete_def Let_def case_prod_beta split: list.splits if_splits)

lemma resume_paying_ref:
  assumes "wf_pc (fst (resume now x w)) = Paying q rs rest"
  shows "approvals w (inv_id (wf_invoice x)) = Some q \<or> (\<exists>rs' rest'. wf_pc x = Paying q rs' rest')"
proof (cases "wf_pc x")
  case Start
  with assms have "wf_pc (fst (loop_head now now x
      (case approvals w (inv_id (wf_invoice x)) of None \<Rightarrow> w
       | Some r \<Rightarrow> set_status r pending w))) = Paying q rs rest"
    by (simp add: resume_def enter_def)
  then have "approvals (case approvals w (inv_id (wf_invoice x)) of None \<Rightarrow> w
       | Some r \<Rightarrow> set_status r pending w) (inv_id (wf_invoice x)) = Some q"
    by (rule loop_head_paying)
  then show ?thesis by (simp split: option.splits)
next
  case (Polling st)
  with assms show ?thesis by (auto simp: resume_def dest: loop_head_paying)
next
  case (Paying q' rs' rest')
  with assms show ?thesis by (auto simp: resume_def dest: pay_paying)
next
  case (Returned s)
  with assms show ?thesis by (simp add: resume_def then_callback_def)
next
  case (Finished s)
  with assms show ?thesis by (simp add: resume_def)
qed

lemma resume_held:
  assumes o: "owned w" and h: "held_owned w x"
  shows "held_owned (snd (resume now x w)) (fst (resume now x w))"
proof (cases "wf_pc (fst (resume now x w))")
  case (Paying q rs rest)
  then have "approvals w (inv_id (wf_invoice x)) = Some q
      \<or> (\<exists>rs' rest'. wf_pc x = Paying q rs' rest')"
    by (rule resume_paying_ref)
  with o h have "q < next_ref w \<and> inv_id (invoice (objs w q)) = inv_id (wf_invoice x)"
    by (auto simp: owned_def held_owned_def)
  with Paying show ?thesis by (simp add: held_owned_def resume_keeps)
qed (simp_all add: held_owned_def)

lemma owned_resume:
  assumes o: "owned w" and n: "n < length (workflows w)"
  shows "owned (step d (Resume n now) w)"
proof -
  let ?x = "workflows w ! n"
  let ?w1 = "snd (resume now ?x w)"
  from o n have hx: "held_owned w ?x" by (simp add: owned_def list_all_length)
  from o hx have h': "held_owned ?w1 (fst (resume now ?x w))" by (rule resume_held)
  have keep: "held_owned ?w1 y" if "held_owned w y" for y
    using that by (rule held_owned_frame) (simp_all add: resume_keeps)
  from o have "list_all (held_owned ?w1) (workflows w)"
    by (auto simp: owned_def list_all_iff intro: keep)
  with h' n have "list_all (held_owned ?w1) ((workflows w)[n := fst (resume now ?x w)])"
    by (simp add: list_all_length nth_list_update)
  moreover from o have "\<forall>k r. approvals ?w1 k = Some r \<longrightarrow>
      r < next_ref ?w1 \<and> inv_id (invoice (objs ?w1 r)) = k"
    by (simp add: owned_def resume_frame resume_keeps)
  ultimately show ?thesis using n
    by (simp add: step_Resume owned_def resume_frame resume_keeps)
qed

lemma handler_keeps:
  "next_ref (snd (approve_invoice i w)) = next_ref w"
  "next_ref (snd (reject_invoice i w)) = next_ref w"
  "next_ref (snd (check_invoice_status i w)) = next_ref w"
  "invoice (objs (snd (approve_invoice i w)) r) = invoice (objs w r)"
  "invoice (objs (snd (reject_invoice i w)) r) = invoice (objs w r)"
  "invoice (objs (snd (check_invoice_status i w)) r) = invoice (objs w r)"
  "approvals (snd (approve_invoice i w)) = approvals w"
  "approvals (snd (reject_invoice i w)) = approvals w"
  "approvals (snd (check_invoice_status i w)) = approvals w"
  by (simp_all add: approve_invoice_def reject_invoice_def check_invoice_status_def
      split: option.splits)

lemma owned_keeps:
  assumes "owned w" and "next_ref w' = next_ref w" and "approvals w' = approvals w"
    and "workflows w' = workflows w"
    and "\<And>r. invoice (objs w' r) = invoice (objs w r)"
  shows "owned w'"
proof -
  have "held_owned w' y" if "held_owned w y" for y
    using that by (rule held_owned_frame) (simp_all add: assms)
  with assms show ?thesis by (auto simp: owned_def list_all_iff)
qed

lemma attach_keeps [simp]:
  "wf_invoice (attach x) = wf_invoice x"
  "held_owned w (attach x) = held_owned w x"
  "wf_pc (attach x) = Start \<longleftrightarrow> wf_pc x = Start"
  "holds_processing w (attach x) = holds_processing w x"
  by (simp_all add: attach_def held_owned_def holds_processing_def split: pc.splits)

lemma submit_fields:
  "next_ref (snd (submit_invoice d i ls w)) = Suc (next_ref w)"
  "workflows (snd (submit_invoice d i ls w)) =
     durableProcessInvoice d (''invoice-'' @ i)
       \<lparr>inv_id = i, lines = ls, totalAmount = sum_amounts ls\<rparr> (workflows w)"
  by (simp_all add: submit_invoice_def Let_def)

lemma owned_submit:
  assumes o: "owned w"
  shows "owned (snd (submit_invoice d i ls w))"
proof -
  let ?w1 = "snd (submit_invoice d i ls w)"
  have keep: "held_owned ?w1 y" if "held_owned w y" for y
    using that by (rule held_owned_frame) (simp_all add: submit_fields objs_submit)
  from o have "list_all (held_owned ?w1) (workflows w)"
    by (auto simp: owned_def list_all_iff intro: keep)
  moreover have "held_owned ?w1 \<lparr>wf_id = wid, wf_invoice = iv, wf_pc = Start, ctx_runs = []\<rparr>"
    for wid iv
    by (simp add: held_owned_def)
  ultimately have "list_all (held_owned ?w1) (workflows ?w1)"
    by (auto simp: submit_fields durableProcessInvoice_def list_all_iff)
  moreover from o have "\<forall>k r. approvals ?w1 k = Some r \<longrightarrow>
      r < next_ref ?w1 \<and> inv_id (invoice (objs ?w1 r)) = k"
    by (auto simp: owned_def approvals_submit objs_submit submit_fields less_Suc_eq)
  ultimately show ?thesis by (simp add: owned_def)
qed

lemma owned_call: "owned w \<Longrightarrow> owned (snd (call_tool d p w))"
  by (auto simp: call_tool_def owned_submit handler_keeps handler_workflows
      intro: owned_keeps)

lemma owned_step: "owned w \<Longrightarrow> owned (step d e w)"
proof (cases e)
  case (Call p)
  assume "owned w"
  with Call show ?thesis by (simp add: step_def owned_call)
next
  case (Resume n now)
  assume "owned w"
  with Resume show ?thesis
    by (cases "n < length (workflows w)") (simp_all add: owned_resume, simp add: step_def)
qed

lemma owned_exec: "owned w \<Longrightarrow> owned (exec d es w)"
  by (induction es arbitrary: w) (simp_all add: owned_step)

lemma owned_reachable: "owned (exec d es initial)"
  by (rule owned_exec) (simp add: owned_def initial_def)

subsection \<open>Between two submissions of an id its status moves forward\<close>

lemma holds_frame:
  assumes "holds_processing w x" and "held_owned w x"
    and "\<And>r. r < next_ref w \<Longrightarrow> inv_id (invoice (objs w r)) = inv_id (wf_invoice x) \<Longrightarrow>
           forward (status (objs w r)) (status (objs w' r))"
  shows "holds_processing w' x"
proof (cases "wf_pc x")
  case (Paying q rs rest)
  with assms(2) have "q < next_ref w" "inv_id (invoice (objs w q)) = inv_id (wf_invoice x)"
    by (simp_all add: held_owned_def)
  then have "forward (status (objs w q)) (status (objs w' q))" by (rule assms(3))
  moreover from Paying assms(1) have "forward processing (status (objs w q))"
    by (simp add: holds_processing_def)
  ultimately have "forward processing (status (objs w' q))"
    by (blast intro: forward_trans)
  with Paying show ?thesis by (simp add: holds_processing_def)
qed (simp_all add: holds_processing_def)

lemma steady_for_frame:
  assumes st: "steady_for i w" and o: "owned w"
    and ws: "workflows w' = workflows w"
    and fw: "\<And>r. r < next_ref w \<Longrightarrow> inv_id (invoice (objs w r)) = i \<Longrightarrow>
           forward (status (objs w r)) (status (objs w' r))"
  shows "steady_for i w'"
proof -
  have "wf_pc y \<noteq> Start \<and> holds_processing w' y"
    if y: "y \<in> set (workflows w)" and i: "inv_id (wf_invoice y) = i" for y
  proof -
    from st y i have a: "wf_pc y \<noteq> Start" and b: "holds_processing w y"
      by (simp_all add: steady_for_def list_all_iff)
    from o y have "held_owned w y" by (simp add: owned_def list_all_iff)
    with b have "holds_processing w' y"
      by (rule holds_frame) (simp add: fw i)
    with a show ?thesis by simp
  qed
  then show ?thesis by (simp add: steady_for_def list_all_iff ws)
qed

lemma call_keeps:
  assumes "name p \<noteq> ''submit_invoice''"
  shows "next_ref (snd (call_tool d p w)) = next_ref w"
    and "invoice (objs (snd (call_tool d p w)) r) = invoice (objs w r)"
    and "approvals (snd (call_tool d p w)) = approvals w"
    and "workflows (snd (call_tool d p w)) = workflows w"
    and "forward (status (objs w r)) (status (objs (snd (call_tool d p w)) r))"
  using assms
  by (simp_all add: call_tool_def handler_keeps handler_workflows approve_forward reject_forward
      check_invoice_status_def split: option.splits)

lemma step_for:
  assumes o: "owned w" and st: "steady_for i w" and e: "\<not> is_submit i e"
  shows "approvals (step d e w) i = approvals w i
       \<and> (\<forall>r. r < next_ref w \<and> inv_id (invoice (objs w r)) = i \<longrightarrow>
            forward (status (objs w r)) (status (objs (step d e w) r))
            \<and> invoice (objs (step d e w) r) = invoice (objs w r))
       \<and> next_ref w \<le> next_ref (step d e w)
       \<and> steady_for i (step d e w)"
proof (cases e)
  case (Call p)
  show ?thesis
  proof (cases "name p = ''submit_invoice''")
    case False
    note k = call_keeps [OF False, where d = d and w = w]
    have "steady_for i (snd (call_tool d p w))"
      using st o k(4) by (rule steady_for_frame) (rule k(5))
    with Call k show ?thesis by (simp add: step_def)
  next
    case True
    let ?k = "arg_invoice_id p"
    let ?w1 = "snd (submit_invoice d ?k (arg_lines p) w)"
    from True e Call have ki: "?k \<noteq> i" by (simp add: is_submit_def)
    from True Call have w1: "step d e w = ?w1" by (simp add: step_def call_tool_def)
    have a: "approvals ?w1 i = approvals w i" using ki by (simp add: approvals_submit)
    have b: "objs ?w1 r = objs w r" if "r < next_ref w" for r
      using that by (simp add: objs_submit)
    have "wf_pc y \<noteq> Start \<and> holds_processing ?w1 y"
      if y: "y \<in> set (workflows ?w1)" and i: "inv_id (wf_invoice y) = i" for y
    proof -
      from y i ki obtain x where x: "x \<in> set (workflows w)" and yx: "y = x \<or> y = attach x"
        by (auto simp: submit_fields durableProcessInvoice_def split: if_splits)
      from yx i have xi: "inv_id (wf_invoice x) = i" by auto
      with st x have s: "wf_pc x \<noteq> Start" and h: "holds_processing w x"
        by (simp_all add: steady_for_def list_all_iff)
      from o x have "held_owned w x" by (simp add: owned_def list_all_iff)
      with h have "holds_processing ?w1 x"
        by (rule holds_frame) (simp add: b)
      with s yx show ?thesis by auto
    qed
    then have c: "steady_for i ?w1" by (simp add: steady_for_def list_all_iff)
    from a b c show ?thesis by (simp add: w1 submit_fields)
  qed
next
  case (Resume n now)
  show ?thesis
  proof (cases "n < length (workflows w)")
    case False
    with Resume st show ?thesis by (simp add: step_def)
  next
    case True
    let ?x = "workflows w ! n"
    let ?x1 = "fst (resume now ?x w)"
    let ?w1 = "snd (resume now ?x w)"
    from True have w1: "step d e w = ?w1\<lparr>workflows := (workflows w)[n := ?x1]\<rparr>"
      unfolding Resume by (rule step_Resume)
    from o True have hx: "held_owned w ?x" by (simp add: owned_def list_all_length)
    have fw: "forward (status (objs w r)) (status (objs ?w1 r))"
      if r: "r < next_ref w" "inv_id (invoice (objs w r)) = i" for r
    proof (cases "inv_id (wf_invoice ?x) = i")
      case True
      with st \<open>n < length (workflows w)\<close> have "wf_pc ?x \<noteq> Start" "holds_processing w ?x"
        by (simp_all add: steady_for_def list_all_length)
      then show ?thesis by (rule resume_forward)
    next
      case False
      with o r have "approvals w (inv_id (wf_invoice ?x)) \<noteq> Some r"
        by (auto simp: owned_def)
      moreover from hx False r have "q \<noteq> r" if "wf_pc ?x = Paying q rs rest" for q rs rest
        using that by (auto simp: held_owned_def)
      ultimately have "objs ?w1 r = objs w r" by (rule resume_touches)
      then show ?thesis by simp
    qed
    have "inv_id (wf_invoice y) = i \<longrightarrow> wf_pc y \<noteq> Start \<and> holds_processing ?w1 y"
      if y: "y \<in> set ((workflows w)[n := ?x1])" for y
    proof -
      from y have "y = ?x1 \<or> y \<in> set (workflows w)"
        using set_update_subset_insert [of "workflows w" n ?x1] by auto
      then show ?thesis
      proof
        assume y1: "y = ?x1"
        show ?thesis
        proof
          assume "inv_id (wf_invoice y) = i"
          with y1 have "inv_id (wf_invoice ?x) = i" by (simp add: resume_keeps)
          with st True have "wf_pc ?x \<noteq> Start" "holds_processing w ?x"
            by (simp_all add: steady_for_def list_all_length)
          with y1 show "wf_pc y \<noteq> Start \<and> holds_processing ?w1 y"
            by (simp add: resume_started resume_holds)
        qed
      next
        assume yw: "y \<in> set (workflows w)"
        show ?thesis
        proof
          assume i: "inv_id (wf_invoice y) = i"
          with st yw have a: "wf_pc y \<noteq> Start" and b: "holds_processing w y"
            by (simp_all add: steady_for_def list_all_iff)
          from o yw have "held_owned w y" by (simp add: owned_def list_all_iff)
          with b have "holds_processing ?w1 y"
            by (rule holds_frame) (simp add: fw i)
          with a show "wf_pc y \<noteq> Start \<and> holds_processing ?w1 y" by simp
        qed
      qed
    qed
    then have "steady_for i (step d e w)"
      by (simp add: w1 steady_for_def list_all_iff)
    with fw show ?thesis
      by (simp add: w1 resume_frame resume_keeps)
  qed
qed

lemma exec_for:
  assumes "owned w" and "steady_for i w" and "list_all (\<lambda>e. \<not> is_submit i e) es"
  shows "approvals (exec d es w) i = approvals w i
       \<and> (\<forall>r. r < next_ref w \<and> inv_id (invoice (objs w r)) = i \<longrightarrow>
            forward (status (objs w r)) (status (objs (exec d es w) r)))
       \<and> steady_for i (exec d es w)"
  using assms
proof (induction es arbitrary: w)
  case Nil
  then show ?case by simp
next
  case (Cons e es)
  from Cons.prems have e: "\<not> is_submit i e" and es: "list_all (\<lambda>e. \<not> is_submit i e) es"
    by simp_all
  let ?w1 = "step d e w"
  note s = step_for [OF Cons.prems(1) Cons.prems(2) e, where d = d]
  from Cons.prems(1) have o1: "owned ?w1" by (rule owned_step)
  from s have st1: "steady_for i ?w1" by blast
  note ih = Cons.IH [OF o1 st1 es]
  have "forward (status (objs w r)) (status (objs (exec d es ?w1) r))"
    if r: "r < next_ref w" "inv_id (invoice (objs w r)) = i" for r
  proof -
    from s r have a: "forward (status (objs w r)) (status (objs ?w1 r))"
      and b: "invoice (objs ?w1 r) = invoice (objs w r)" and c: "r < next_ref ?w1"
      by auto
    from ih b c r have "forward (status (objs ?w1 r)) (status (objs (exec d es ?w1) r))"
      by simp
    with a show ?thesis by (rule forward_trans)
  qed
  with s ih show ?case by simp
qed

subsection \<open>An approved invoice is paid line by line and reported\<close>

lemma step_call:
  "step d (call ''submit_invoice'' i ls) w = snd (submit_invoice d i ls w)"
  "step d (call ''approve_invoice'' i ls) w = snd (approve_invoice i w)"
  "step d (call ''reject_invoice'' i ls) w = snd (reject_invoice i w)"
  "step d (call ''check_invoice_status'' i ls) w = snd (check_invoice_status i w)"
  by (simp_all add: step_def call_def call_tool_def)

lemma resume_paying:
  assumes "wf_pc x = Paying r rs (l # rest)"
  shows "resume now x w =
    (if rest = []
     then complete r (rs @ [payment_text l]) (x\<lparr>ctx_runs := ctx_runs x @ [l]\<rparr>)
            (w\<lparr>console := snd (processPayment l (console w))\<rparr>)
     else (x\<lparr>ctx_runs := ctx_runs x @ [l], wf_pc := Paying r (rs @ [payment_text l]) rest\<rparr>,
           w\<lparr>console := snd (processPayment l (console w))\<rparr>))"
  using assms by (simp add: resume_def pay_def Let_def case_prod_beta)

lemma pay_all:
  assumes "n < length (workflows w)" "wf_pc (workflows w ! n) = Paying r rs rest"
    "rest \<noteq> []" "length ts = length rest"
  shows "wf_pc (workflows (exec d (map (Resume n) ts) w) ! n) =
           Returned (''COMPLETED\<newline>'' @ join ''\<newline>'' (rs @ map payment_text rest))
       \<and> ctx_runs (workflows (exec d (map (Resume n) ts) w) ! n) = ctx_runs (workflows w ! n) @ rest
       \<and> wf_invoice (workflows (exec d (map (Resume n) ts) w) ! n) = wf_invoice (workflows w ! n)
       \<and> n < length (workflows (exec d (map (Resume n) ts) w))
       \<and> approvals (exec d (map (Resume n) ts) w) = approvals w
       \<and> objs (exec d (map (Resume n) ts) w) =
           (objs w)(r := (objs w r)\<lparr>status := completed,
              result := Some (join ''\<newline>'' (rs @ map payment_text rest))\<rparr>)"
  using assms
proof (induction rest arbitrary: w rs ts)
  case Nil
  then show ?case by simp
next
  case (Cons l rest)
  from Cons.prems(4) obtain t ts' where ts: "ts = t # ts'" and len: "length ts' = length rest"
    by (cases ts) simp_all
  let ?x = "workflows w ! n"
  let ?w1 = "step d (Resume n t) w"
  note res = resume_paying [OF Cons.prems(2), of t w]
  show ?case
  proof (cases "rest = []")
    case True
    with len have "ts' = []" by simp
    with ts True res Cons.prems(1) show ?thesis
      by (simp add: step_Resume complete_def)
  next
    case False
    with res Cons.prems(1)
    have n1: "n < length (workflows ?w1)"
      and pc1: "wf_pc (workflows ?w1 ! n) = Paying r (rs @ [payment_text l]) rest"
      and runs1: "ctx_runs (workflows ?w1 ! n) = ctx_runs ?x @ [l]"
      and inv1: "wf_invoice (workflows ?w1 ! n) = wf_invoice ?x"
      and ap1: "approvals ?w1 = approvals w"
      and ob1: "objs ?w1 = objs w"
      by (simp_all add: step_Resume)
    from Cons.IH [OF n1 pc1 False len] runs1 inv1 ap1 ob1 ts show ?thesis
      by simp
  qed
qed

text \<open>
  From the start of the server: an invoice is submitted, its execution enters the polling
  loop, the invoice is approved, the execution wakes up and is resumed once for each line
  and once for the callback. The status query then shows the invoice completed, its total,
  and the payment results in the order of the lines, for every id and every list of lines.
\<close>

lemma approved_invoice_report:
  assumes "length ts = length ls"
  shows "fst (check_invoice_status i
           (exec d ([call ''submit_invoice'' i ls, Resume 0 t0, call ''approve_invoice'' i [],
                     Resume 0 t1] @ map (Resume 0) ts @ [Resume 0 t2]) initial)) =
         Inr (''Invoice '' @ i @ '':\<newline>Status: completed\<newline>Total Amount: $''
              @ toString (sum_amounts ls)
              @ ''\<newline>\<newline>Result:\<newline>COMPLETED\<newline>''
              @ join ''\<newline>'' (map payment_text ls))"
proof -
  let ?iv = "\<lparr>inv_id = i, lines = ls, totalAmount = sum_amounts ls\<rparr>"
  let ?x0 = "\<lparr>wf_id = ''invoice-'' @ i, wf_invoice = ?iv, wf_pc = Start, ctx_runs = []\<rparr>"
  let ?e = "\<lparr>status = pending, invoice = ?iv, result = None\<rparr>"
  let ?res = "''COMPLETED\<newline>'' @ join ''\<newline>'' (map payment_text ls)"
  define w1 where "w1 = step d (call ''submit_invoice'' i ls) initial"
  define w2 where "w2 = step d (Resume 0 t0) w1"
  define w3 where "w3 = step d (call ''approve_invoice'' i []) w2"
  define w4 where "w4 = step d (Resume 0 t1) w3"
  define w5 where "w5 = exec d (map (Resume 0) ts) w4"
  define w6 where "w6 = step d (Resume 0 t2) w5"
  have run: "exec d ([call ''submit_invoice'' i ls, Resume 0 t0, call ''approve_invoice'' i [],
                     Resume 0 t1] @ map (Resume 0) ts @ [Resume 0 t2]) initial = w6"
    by (simp add: exec_append w1_def w2_def w3_def w4_def w5_def w6_def)
  have a1: "approvals w1 i = Some 0" and o1: "objs w1 0 = ?e" and f1: "workflows w1 = [?x0]"
    by (simp_all add: w1_def step_call approvals_submit objs_submit initial_def)
      (simp add: submit_invoice_def Let_def durableProcessInvoice_def)
  have r2: "resume t0 (workflows w1 ! 0) w1 = (?x0\<lparr>wf_pc := Polling t0\<rparr>, set_status 0 pending w1)"
    using a1 f1 by (simp add: resume_start)
  have a2: "approvals w2 i = Some 0" and o2: "objs w2 0 = ?e"
    and f2: "workflows w2 = [?x0\<lparr>wf_pc := Polling t0\<rparr>]"
    using r2 a1 o1 f1 by (simp_all add: w2_def step_Resume)
  have w3: "w3 = set_status 0 approved w2"
    using a2 o2 by (simp add: w3_def step_call approve_pending)
  have a3: "approvals w3 i = Some 0" and o3: "objs w3 0 = ?e\<lparr>status := approved\<rparr>"
    and f3: "workflows w3 = [?x0\<lparr>wf_pc := Polling t0\<rparr>]"
    using a2 o2 f2 by (simp_all add: w3)
  have r4: "resume t1 (workflows w3 ! 0) w3 =
      (if ls = [] then complete 0 [] (?x0\<lparr>wf_pc := Polling t0\<rparr>) (set_status 0 processing w3)
       else (?x0\<lparr>wf_pc := Paying 0 [] ls\<rparr>, set_status 0 processing w3))"
    using a3 o3 f3 resume_approved [of "workflows w3 ! 0" t0 w3 0 t1] by simp
  have 5: "wf_pc (workflows w5 ! 0) = Returned ?res \<and> wf_invoice (workflows w5 ! 0) = ?iv
      \<and> 0 < length (workflows w5) \<and> approvals w5 i = Some 0
      \<and> status (objs w5 0) = completed \<and> invoice (objs w5 0) = ?iv"
  proof (cases "ls = []")
    case True
    with assms have "w5 = w4" by (simp add: w5_def)
    with True r4 a3 o3 f3 show ?thesis
      by (simp add: w4_def step_Resume complete_def)
  next
    case False
    with r4 a3 o3 f3 have n4: "0 < length (workflows w4)"
      and pc4: "wf_pc (workflows w4 ! 0) = Paying 0 [] ls"
      and iv4: "wf_invoice (workflows w4 ! 0) = ?iv"
      and a4: "approvals w4 i = Some 0"
      and o4: "objs w4 0 = ?e\<lparr>status := processing\<rparr>"
      by (simp_all add: w4_def step_Resume)
    from pay_all [OF n4 pc4 False assms, where d = d] iv4 a4 o4 show ?thesis
      by (simp add: w5_def)
  qed
  then have r6: "resume t2 (workflows w5 ! 0) w5 =
      ((workflows w5 ! 0)\<lparr>wf_pc := Finished ?res\<rparr>, set_result 0 ?res w5)"
    by (simp add: resume_returned)
  with 5 have a6: "approvals w6 i = Some 0"
    and o6: "objs w6 0 = (objs w5 0)\<lparr>result := Some ?res\<rparr>"
    by (simp_all add: w6_def step_Resume)
  with 5 show ?thesis
    unfolding run by (simp add: check_known statusText_def)
qed

text \<open>
  The example world \<open>waiting pending\<close> is the state of the server after \<open>waiting_run\<close>, and
  \<open>waiting rejected\<close> its state after the rejection that follows.
\<close>

lemma waiting_reachable: "exec d waiting_run initial = waiting pending"
proof -
  let ?w1 = "snd (submit_invoice d ''INV-1'' [consulting, expenses] initial)"
  have w1: "?w1 = (waiting pending)\<lparr>workflows :=
      [\<lparr>wf_id = ''invoice-INV-1'', wf_invoice = inv1, wf_pc = Start, ctx_runs = []\<rparr>]\<rparr>"
    by (simp add: submit_invoice_def Let_def durableProcessInvoice_def initial_def waiting_def
        inv1_def sum_amounts_150)
  have "resume 0 (workflows ?w1 ! 0) ?w1 =
      ((workflows ?w1 ! 0)\<lparr>wf_pc := Polling 0\<rparr>, set_status 0 pending ?w1)"
    by (rule resume_start) (simp_all add: w1 waiting_def inv1_def)
  then have "step d (Resume 0 0) ?w1 = waiting pending"
    by (simp add: step_Resume w1) (simp add: waiting_def set_status_def)
  then show ?thesis by (simp add: waiting_run_def step_call)
qed

lemma waiting_rejected_reachable:
  "exec d (waiting_run @ [call ''reject_invoice'' ''INV-1'' []]) initial = waiting rejected"
proof -
  have "step d (call ''reject_invoice'' ''INV-1'' []) (waiting pending) = waiting rejected"
    by (simp add: step_call reject_invoice_def waiting_fields) (simp add: waiting_def set_status_def)
  then show ?thesis by (simp add: exec_append waiting_reachable)
qed

section \<open>The claims\<close>

text \<open>
  C1 as stated fails: \<^verbatim>\<open>INV-1\<close> is submitted and approved, and the second submission
  with the same id leaves a pending entry with the new line in the store (and, without
  deduplication, a second execution).
\<close>

theorem C1_counterexample:
  "map_option status (get_state (exec True (butlast resubmit_run) initial) ''INV-1'') = Some approved
   \<and> map_option status (get_state (exec True resubmit_run initial) ''INV-1'') = Some pending
   \<and> map_option (lines \<circ> invoice) (get_state (exec True resubmit_run initial) ''INV-1'')
       = Some [consulting]
   \<and> map_option status (get_state (exec False (butlast resubmit_run) initial) ''INV-1'') = Some approved
   \<and> map_option status (get_state (exec False resubmit_run initial) ''INV-1'') = Some pending
   \<and> length (workflows (exec False resubmit_run initial)) = 2"
  by code_simp

text \<open>
  C1, as the code has it. A second \<^verbatim>\<open>submit_invoice\<close> with an id that is already stored
  does not resume the first entry: the map then points to a new entry with status pending,
  the invoice of the second call and no result, whatever the state of the first entry,
  which is left as it was but is no longer reachable through the map. Whether a second
  execution starts is the SDK's decision: none if it deduplicates execution ids, one if
  it does not.
\<close>

theorem C1_resubmit_overwrites:
  assumes "approvals w i = Some r" and "r < next_ref w"
  shows "get_state (snd (submit_invoice d i ls w)) i =
           Some \<lparr>status = pending,
                 invoice = \<lparr>inv_id = i, lines = ls, totalAmount = sum_amounts ls\<rparr>,
                 result = None\<rparr>
       \<and> approvals (snd (submit_invoice d i ls w)) i = Some (next_ref w)
       \<and> objs (snd (submit_invoice d i ls w)) r = objs w r
       \<and> workflows (snd (submit_invoice d i ls w)) =
           durableProcessInvoice d (''invoice-'' @ i)
             \<lparr>inv_id = i, lines = ls, totalAmount = sum_amounts ls\<rparr> (workflows w)
       \<and> (d \<and> ''invoice-'' @ i \<in> set (map wf_id (workflows w)) \<longrightarrow>
            length (workflows (snd (submit_invoice d i ls w))) = length (workflows w))
       \<and> (\<not> d \<longrightarrow>
            workflows (snd (submit_invoice d i ls w)) =
              workflows w @ [\<lparr>wf_id = ''invoice-'' @ i,
                 wf_invoice = \<lparr>inv_id = i, lines = ls, totalAmount = sum_amounts ls\<rparr>,
                 wf_pc = Start, ctx_runs = []\<rparr>])"
proof -
  let ?w = "snd (submit_invoice d i ls w)"
  let ?iv = "\<lparr>inv_id = i, lines = ls, totalAmount = sum_amounts ls\<rparr>"
  have a: "approvals ?w i = Some (next_ref w)" by (simp add: approvals_submit)
  have o: "objs ?w (next_ref w) = \<lparr>status = pending, invoice = ?iv, result = None\<rparr>"
    by (simp add: objs_submit)
  have 1: "get_state ?w i = Some \<lparr>status = pending, invoice = ?iv, result = None\<rparr>"
    by (simp add: get_state_def a o)
  have 3: "objs ?w r = objs w r" using assms(2) by (simp add: objs_submit)
  have 4: "workflows ?w = durableProcessInvoice d (''invoice-'' @ i) ?iv (workflows w)"
    by (simp add: submit_invoice_def Let_def)
  have 5: "d \<and> ''invoice-'' @ i \<in> set (map wf_id (workflows w)) \<longrightarrow>
      length (workflows ?w) = length (workflows w)"
    unfolding 4 by (simp add: durableProcessInvoice_def)
  have 6: "\<not> d \<longrightarrow> workflows ?w = workflows w @
      [\<lparr>wf_id = ''invoice-'' @ i, wf_invoice = ?iv, wf_pc = Start, ctx_runs = []\<rparr>]"
    unfolding 4 by (simp add: durableProcessInvoice_def)
  from 1 a 3 4 5 6 show ?thesis by blast
qed

theorem C1_resubmit_overwrites_witness:
  "approvals (exec True (butlast resubmit_run) initial) ''INV-1'' = Some 0
   \<and> 0 < next_ref (exec True (butlast resubmit_run) initial)
   \<and> status (objs (exec True (butlast resubmit_run) initial) 0) = approved
   \<and> get_state (snd (submit_invoice True ''INV-1'' [consulting]
                       (exec True (butlast resubmit_run) initial))) ''INV-1'' =
           Some \<lparr>status = pending,
                 invoice = \<lparr>inv_id = ''INV-1'', lines = [consulting], totalAmount = Fin 100\<rparr>,
                 result = None\<rparr>
   \<and> approvals (snd (submit_invoice True ''INV-1'' [consulting]
                       (exec True (butlast resubmit_run) initial))) ''INV-1'' = Some 1"
proof -
  let ?w = "exec True (butlast resubmit_run) initial"
  have h1: "approvals ?w ''INV-1'' = Some 0" by code_simp
  have h2: "0 < next_ref ?w" by code_simp
  have h3: "status (objs ?w 0) = approved" by code_simp
  have n: "next_ref ?w = 1" by code_simp
  have s: "sum_amounts [consulting] = Fin 100" by code_simp
  from C1_resubmit_overwrites [OF h1 h2, of True "[consulting]"] h1 h2 h3 show ?thesis
    unfolding s n by simp
qed

text \<open>
  C2. Timeout auto-rejection: an execution polls an entry on which no decision is made.
  Every wake-up before the deadline (\<open>now - startTime < timeout\<close>) leaves the world as it
  is; at the first wake-up with the deadline elapsed, the entry being still pending, the
  execution sets the stored status to rejected and returns \<^verbatim>\<open>REJECTED due to timeout\<close>;
  and once the callback of the submit handler has stored this result,
  \<^verbatim>\<open>check_invoice_status\<close> reports the status rejected and the result
  \<^verbatim>\<open>REJECTED due to timeout\<close>.
\<close>

theorem C2_timeout_rejection:
  assumes n: "n < length (workflows w)"
    and pc: "wf_pc (workflows w ! n) = Polling st"
    and r: "approvals w (inv_id (wf_invoice (workflows w ! n))) = Some r"
    and p: "status (objs w r) = pending"
    and early: "list_all (\<lambda>t. t - st < timeout) early"
    and late: "timeout \<le> now - st"
  shows "exec d (map (Resume n) early) w = w
    \<and> status (objs (exec d (map (Resume n) early @ [Resume n now]) w) r) = rejected
    \<and> wf_pc (workflows (exec d (map (Resume n) early @ [Resume n now]) w) ! n)
        = Returned ''REJECTED due to timeout''
    \<and> fst (check_invoice_status (inv_id (wf_invoice (workflows w ! n)))
            (exec d (map (Resume n) early @ [Resume n now, Resume n now']) w)) =
       Inr (''Invoice '' @ inv_id (wf_invoice (workflows w ! n)) @ '':\<newline>''
            @ ''Status: rejected\<newline>''
            @ ''Total Amount: $'' @ toString (totalAmount (invoice (objs w r)))
            @ ''\<newline>\<newline>Result:\<newline>REJECTED due to timeout'')"
proof -
  let ?x = "workflows w ! n"
  have 0: "exec d (map (Resume n) early) w = w"
    using n pc r p early by (rule polls_still_pending)
  have res: "resume now ?x w =
      (?x\<lparr>wf_pc := Returned ''REJECTED due to timeout''\<rparr>, set_status r rejected w)"
    using pc late r p by (simp add: resume_timeout_pending)
  have 1: "status (objs (exec d (map (Resume n) early @ [Resume n now]) w) r) = rejected"
    using n res by (simp add: exec_append 0 step_Resume_fields)
  have 2: "wf_pc (workflows (exec d (map (Resume n) early @ [Resume n now]) w) ! n)
      = Returned ''REJECTED due to timeout''"
    using n res by (simp add: exec_append 0 step_Resume_fields)
  have 3: "fst (check_invoice_status (inv_id (wf_invoice ?x))
            (exec d (map (Resume n) early @ [Resume n now, Resume n now']) w)) =
       Inr (''Invoice '' @ inv_id (wf_invoice ?x) @ '':\<newline>''
            @ ''Status: rejected\<newline>''
            @ ''Total Amount: $'' @ toString (totalAmount (invoice (objs w r)))
            @ ''\<newline>\<newline>Result:\<newline>REJECTED due to timeout'')"
    using return_then_callback [OF n r res, of d now'] by (simp add: exec_append 0)
  from 0 1 2 3 show ?thesis by blast
qed

theorem C2_timeout_rejection_witness:
  "status (objs (waiting pending) 0) = pending
   \<and> list_all (\<lambda>t. t - 0 < timeout) [1000, 2000, 299999] \<and> timeout \<le> 300000 - 0
   \<and> exec True (map (Resume 0) [1000, 2000, 299999]) (waiting pending) = waiting pending
   \<and> status (objs (exec True (map (Resume 0) [1000, 2000, 299999] @ [Resume 0 300000])
                     (waiting pending)) 0) = rejected
   \<and> fst (check_invoice_status ''INV-1''
            (exec True (map (Resume 0) [1000, 2000, 299999] @ [Resume 0 300000, Resume 0 300001])
               (waiting pending))) =
       Inr ''Invoice INV-1:\<newline>Status: rejected\<newline>Total Amount: $150\<newline>\<newline>Result:\<newline>REJECTED due to timeout''"
proof -
  have h1: "0 < length (workflows (waiting pending))" by (simp add: waiting_fields)
  have h2: "wf_pc (workflows (waiting pending) ! 0) = Polling 0" by (simp add: waiting_fields)
  have h3: "approvals (waiting pending) (inv_id (wf_invoice (workflows (waiting pending) ! 0)))
      = Some 0"
    by (simp add: waiting_fields inv1_fields)
  have h4: "status (objs (waiting pending) 0) = pending" by (simp add: waiting_fields)
  have h5: "list_all (\<lambda>t. t - 0 < timeout) [1000, 2000, 299999]" by (simp add: timeout_def)
  have h6: "timeout \<le> 300000 - 0" by (simp add: timeout_def)
  have i: "inv_id (wf_invoice (workflows (waiting pending) ! 0)) = ''INV-1''"
    and t: "totalAmount (invoice (objs (waiting pending) 0)) = Fin 150"
    by (simp_all add: waiting_fields inv1_fields)
  from C2_timeout_rejection [OF h1 h2 h3 h4 h5 h6, of True 300001] h4 h5 h6 show ?thesis
    unfolding i t toString_150 by (simp del: exec.simps)
qed

text \<open>
  C3. Illegal transitions are rejected atomically: \<^verbatim>\<open>approve_invoice\<close> and
  \<^verbatim>\<open>reject_invoice\<close> on an unknown id throw the not-found error, on an id whose status is
  not pending they throw the not-pending error, and in both cases the store is as before.
\<close>

theorem C3_illegal_transition:
  "(approvals w i = None \<longrightarrow>
      approve_invoice i w = (Inl (NotFound i), w) \<and>
      reject_invoice i w = (Inl (NotFound i), w)) \<and>
   (approvals w i = Some r \<and> status (objs w r) \<noteq> pending \<longrightarrow>
      approve_invoice i w = (Inl (NotPending i (status (objs w r))), w) \<and>
      reject_invoice i w = (Inl (NotPending i (status (objs w r))), w))"
  by (simp add: approve_invoice_def reject_invoice_def)

theorem C3_illegal_transition_witness:
  "approvals (exec True approved_run initial) ''INV-2'' = None
   \<and> approve_invoice ''INV-2'' (exec True approved_run initial)
       = (Inl (NotFound ''INV-2''), exec True approved_run initial)
   \<and> reject_invoice ''INV-2'' (exec True approved_run initial)
       = (Inl (NotFound ''INV-2''), exec True approved_run initial)
   \<and> approvals (exec True approved_run initial) ''INV-1'' = Some 0
   \<and> status (objs (exec True approved_run initial) 0) = completed
   \<and> approve_invoice ''INV-1'' (exec True approved_run initial)
       = (Inl (NotPending ''INV-1'' completed), exec True approved_run initial)
   \<and> reject_invoice ''INV-1'' (exec True approved_run initial)
       = (Inl (NotPending ''INV-1'' completed), exec True approved_run initial)
   \<and> message (NotPending ''INV-1'' completed)
       = ''Invoice INV-1 is not pending (status: completed)''"
proof -
  let ?w = "exec True approved_run initial"
  have h1: "approvals ?w ''INV-2'' = None" by code_simp
  have h2: "approvals ?w ''INV-1'' = Some 0" by code_simp
  have h3: "status (objs ?w 0) = completed" by code_simp
  from C3_illegal_transition [of ?w "''INV-2''" 0] h1
  have a: "approve_invoice ''INV-2'' ?w = (Inl (NotFound ''INV-2''), ?w)
     \<and> reject_invoice ''INV-2'' ?w = (Inl (NotFound ''INV-2''), ?w)"
    by blast
  from C3_illegal_transition [of ?w "''INV-1''" 0] h2 h3
  have b: "approve_invoice ''INV-1'' ?w = (Inl (NotPending ''INV-1'' completed), ?w)
     \<and> reject_invoice ''INV-1'' ?w = (Inl (NotPending ''INV-1'' completed), ?w)"
    by simp
  from a b h1 h2 h3 show ?thesis by simp
qed

text \<open>
  C4. Ordering of payment results: in every state that the server reaches, whatever the
  interleaving of tool calls and executions, an execution in its payment loop holds the
  results of the lines it has paid so far, which are a prefix of the lines of the invoice
  it was started with, in their order; and an execution that has returned anything other
  than a rejection has returned \<^verbatim>\<open>COMPLETED\<close> followed by the payment results of all
  these lines in the order of the input, having run the payment step on them in that order.
\<close>

theorem C4_payment_order:
  assumes "x \<in> set (workflows (exec d es initial))"
  shows "(wf_pc x = Paying r rs rest \<longrightarrow>
            rs = map payment_text (ctx_runs x) \<and> ctx_runs x @ rest = lines (wf_invoice x))
       \<and> ((wf_pc x = Returned s \<or> wf_pc x = Finished s) \<and> s \<notin> set rejections \<longrightarrow>
            s = ''COMPLETED\<newline>'' @ join ''\<newline>'' (map payment_text (lines (wf_invoice x)))
            \<and> ctx_runs x = lines (wf_invoice x))"
proof -
  from assms have "wf_ok x" by (rule reachable_ok)
  then show ?thesis by (auto simp: wf_ok_def settled_def)
qed

theorem C4_payment_order_witness:
  "hd (workflows (exec True approved_run initial)) \<in> set (workflows (exec True approved_run initial))
   \<and> lines (wf_invoice (hd (workflows (exec True approved_run initial)))) = [consulting, expenses]
   \<and> wf_pc (hd (workflows (exec True approved_run initial))) =
       Finished ''COMPLETED\<newline>Processed payment for consulting: $100\<newline>Processed payment for expenses: $50''
   \<and> ''COMPLETED\<newline>Processed payment for consulting: $100\<newline>Processed payment for expenses: $50''
       = ''COMPLETED\<newline>'' @ join ''\<newline>'' (map payment_text [consulting, expenses])
   \<and> ctx_runs (hd (workflows (exec True approved_run initial))) = [consulting, expenses]"
proof -
  let ?x = "hd (workflows (exec True approved_run initial))"
  let ?s = "''COMPLETED\<newline>Processed payment for consulting: $100\<newline>Processed payment for expenses: $50''"
  have h1: "?x \<in> set (workflows (exec True approved_run initial))" by code_simp
  have h2: "wf_pc ?x = Finished ?s" by code_simp
  have h3: "?s \<notin> set rejections" by code_simp
  have h4: "lines (wf_invoice ?x) = [consulting, expenses]" by code_simp
  from C4_payment_order [OF h1, of 0 "[]" "[]" ?s] h2 h3
  have "?s = ''COMPLETED\<newline>'' @ join ''\<newline>'' (map payment_text (lines (wf_invoice ?x)))
      \<and> ctx_runs ?x = lines (wf_invoice ?x)"
    by blast
  with h1 h2 h4 show ?thesis by simp
qed

text \<open>
  C5. No payment on rejection: in every state that the server reaches, an execution that
  has returned one of the rejection results has not called the payment step on any line;
  and an execution that wakes up to find its entry rejected, or still pending with the
  deadline elapsed, returns a rejection result, leaves the stored status at rejected, and
  does so without a payment call or a line on the console.
\<close>

theorem C5_no_payment_on_rejection:
  "(x \<in> set (workflows (exec d es initial))
      \<and> (wf_pc x = Returned s \<or> wf_pc x = Finished s) \<and> s \<in> set rejections
    \<longrightarrow> ctx_runs x = [])
   \<and> (w = exec d es initial \<and> n < length (workflows w)
      \<and> wf_pc (workflows w ! n) = Polling st
      \<and> approvals w (inv_id (wf_invoice (workflows w ! n))) = Some r
      \<and> (status (objs w r) = rejected \<or> status (objs w r) = pending \<and> timeout \<le> now - st)
    \<longrightarrow> wf_pc (workflows (step d (Resume n now) w) ! n) \<in> Returned ` set rejections
      \<and> ctx_runs (workflows (step d (Resume n now) w) ! n) = []
      \<and> console (step d (Resume n now) w) = console w
      \<and> status (objs (step d (Resume n now) w) r) = rejected)"
proof (intro conjI impI)
  assume a: "x \<in> set (workflows (exec d es initial))
      \<and> (wf_pc x = Returned s \<or> wf_pc x = Finished s) \<and> s \<in> set rejections"
  then have "x \<in> set (workflows (exec d es initial))" by simp
  then have "wf_ok x" by (rule reachable_ok)
  with a have "settled s x" by (auto simp: wf_ok_def)
  with a show "ctx_runs x = []"
    by (auto simp: settled_def dest: rejection_not_completed)
next
  assume a: "w = exec d es initial \<and> n < length (workflows w)
      \<and> wf_pc (workflows w ! n) = Polling st
      \<and> approvals w (inv_id (wf_invoice (workflows w ! n))) = Some r
      \<and> (status (objs w r) = rejected \<or> status (objs w r) = pending \<and> timeout \<le> now - st)"
  let ?x = "workflows w ! n"
  let ?w' = "step d (Resume n now) w"
  from a have n: "n < length (workflows w)" and pc: "wf_pc ?x = Polling st"
    and r: "approvals w (inv_id (wf_invoice ?x)) = Some r" by blast+
  from a have "w = exec d es initial" by blast
  with n have "?x \<in> set (workflows (exec d es initial))" by simp
  then have "wf_ok ?x" by (rule reachable_ok)
  with pc have runs: "ctx_runs ?x = []" by (simp add: wf_ok_def)
  from a consider
      (user) "status (objs w r) = rejected" "now - st < timeout"
    | (late) "status (objs w r) = rejected" "timeout \<le> now - st"
    | (timeout) "status (objs w r) = pending" "timeout \<le> now - st"
    by fastforce
  then have "wf_pc (workflows ?w' ! n) \<in> Returned ` set rejections
      \<and> ctx_runs (workflows ?w' ! n) = []
      \<and> console ?w' = console w
      \<and> status (objs ?w' r) = rejected"
  proof cases
    case user
    with n pc r runs show ?thesis
      by (simp add: step_Resume_fields resume_user_rejected rejections_def)
  next
    case late
    with n pc r runs show ?thesis
      by (simp add: step_Resume_fields resume_late_rejected rejections_def)
  next
    case timeout
    with n pc r runs show ?thesis
      by (simp add: step_Resume_fields resume_timeout_pending rejections_def)
  qed
  then show "wf_pc (workflows ?w' ! n) \<in> Returned ` set rejections"
    and "ctx_runs (workflows ?w' ! n) = []"
    and "console ?w' = console w"
    and "status (objs ?w' r) = rejected"
    by simp_all
qed

theorem C5_no_payment_on_rejection_witness:
  "hd (workflows (exec True rejected_run initial)) \<in> set (workflows (exec True rejected_run initial))
   \<and> wf_pc (hd (workflows (exec True rejected_run initial))) = Finished ''REJECTED by user''
   \<and> ''REJECTED by user'' \<in> set rejections
   \<and> ctx_runs (hd (workflows (exec True rejected_run initial))) = []
   \<and> 0 < length (workflows (exec True waiting_run initial))
   \<and> wf_pc (workflows (exec True waiting_run initial) ! 0) = Polling 0
   \<and> approvals (exec True waiting_run initial) ''INV-1'' = Some 0
   \<and> status (objs (exec True waiting_run initial) 0) = pending
   \<and> timeout \<le> 300000 - 0
   \<and> wf_pc (workflows (step True (Resume 0 300000) (exec True waiting_run initial)) ! 0)
       \<in> Returned ` set rejections
   \<and> ctx_runs (workflows (step True (Resume 0 300000) (exec True waiting_run initial)) ! 0) = []
   \<and> console (step True (Resume 0 300000) (exec True waiting_run initial)) = []
   \<and> status (objs (step True (Resume 0 300000) (exec True waiting_run initial)) 0) = rejected"
proof -
  let ?x = "hd (workflows (exec True rejected_run initial))"
  let ?w = "exec True waiting_run initial"
  have h1: "?x \<in> set (workflows (exec True rejected_run initial))" by code_simp
  have h2: "wf_pc ?x = Finished ''REJECTED by user''" by code_simp
  have h3: "''REJECTED by user'' \<in> set rejections" by code_simp
  have g1: "0 < length (workflows ?w)" by code_simp
  have g2: "wf_pc (workflows ?w ! 0) = Polling 0" by code_simp
  have g3: "inv_id (wf_invoice (workflows ?w ! 0)) = ''INV-1''" by code_simp
  have g4: "approvals ?w ''INV-1'' = Some 0" by code_simp
  have g5: "status (objs ?w 0) = pending" by code_simp
  have g6: "timeout \<le> 300000 - 0" by (simp add: timeout_def)
  have g7: "console ?w = []" by code_simp
  from C5_no_payment_on_rejection
    [where x = ?x and d = True and es = rejected_run and s = "''REJECTED by user''"]
  have a: "ctx_runs ?x = []"
    using h1 h2 h3 by simp
  from C5_no_payment_on_rejection
    [where w = ?w and d = True and es = waiting_run and n = 0 and st = 0 and r = 0
       and now = 300000]
  have b: "wf_pc (workflows (step True (Resume 0 300000) ?w) ! 0) \<in> Returned ` set rejections
      \<and> ctx_runs (workflows (step True (Resume 0 300000) ?w) ! 0) = []
      \<and> console (step True (Resume 0 300000) ?w) = console ?w
      \<and> status (objs (step True (Resume 0 300000) ?w) 0) = rejected"
    using g1 g2 g3 g4 g5 g6 by simp
  from a b h1 h2 h3 g1 g2 g4 g5 g6 g7 show ?thesis by simp
qed

text \<open>
  C6 as stated fails: after \<^verbatim>\<open>INV-1\<close> has been approved and paid its status is completed,
  and a \<^verbatim>\<open>submit_invoice\<close> with the same id moves the stored status back to pending.
\<close>

theorem C6_counterexample:
  "map_option status (get_state (exec True approved_run initial) ''INV-1'') = Some completed
   \<and> map_option status
        (get_state (exec True (approved_run @ [call ''submit_invoice'' ''INV-1'' [consulting]])
                      initial) ''INV-1'') = Some pending
   \<and> \<not> forward completed pending"
  by code_simp

text \<open>
  C6, as the code has it. Take a state that the server has reached and that is steady for
  an id, and any run from it in which \<^verbatim>\<open>submit_invoice\<close> is not called for this id, whatever
  else is called, for other ids as well, and however the executions interleave. Then the id
  stays mapped to the same entry, the status of that entry at the end is its status at the
  beginning or a later one on \<open>pending \<rightarrow> approved \<rightarrow> processing \<rightarrow> completed\<close> or
  \<open>pending \<rightarrow> rejected\<close>, so that rejected and completed are terminal, and the state is
  still steady for the id. (\<^verbatim>\<open>submit_invoice\<close> for the id and the first statement of
  \<^verbatim>\<open>processInvoice\<close> write pending whatever the status was.)
\<close>

theorem C6_forward_between_submissions:
  assumes "w = exec d es0 initial" and "steady_for i w"
    and "list_all (\<lambda>e. \<not> is_submit i e) es"
  shows "approvals (exec d es w) i = approvals w i
       \<and> (\<forall>r. approvals w i = Some r \<longrightarrow>
            forward (status (objs w r)) (status (objs (exec d es w) r)))
       \<and> steady_for i (exec d es w)"
proof -
  from assms(1) have o: "owned w" by (simp add: owned_reachable)
  note x = exec_for [OF o assms(2) assms(3), where d = d]
  have "forward (status (objs w r)) (status (objs (exec d es w) r))"
    if "approvals w i = Some r" for r
  proof -
    from o that have "r < next_ref w \<and> inv_id (invoice (objs w r)) = i"
      by (simp add: owned_def)
    with x show ?thesis by blast
  qed
  with x show ?thesis by blast
qed

theorem C6_forward_between_submissions_witness:
  "steady_for ''INV-1'' (exec True waiting_run initial)
   \<and> list_all (\<lambda>e. \<not> is_submit ''INV-1'' e) mixed_run
   \<and> approvals (exec True waiting_run initial) ''INV-1'' = Some 0
   \<and> approvals (exec True mixed_run (exec True waiting_run initial)) ''INV-1'' = Some 0
   \<and> status (objs (exec True waiting_run initial) 0) = pending
   \<and> status (objs (exec True mixed_run (exec True waiting_run initial)) 0) = completed
   \<and> forward pending completed
   \<and> map_option status (get_state (exec True mixed_run (exec True waiting_run initial)) ''INV-2'')
       = Some completed"
proof -
  let ?w = "exec True waiting_run initial"
  have h1: "steady_for ''INV-1'' ?w" by code_simp
  have h2: "list_all (\<lambda>e. \<not> is_submit ''INV-1'' e) mixed_run" by code_simp
  have a: "approvals ?w ''INV-1'' = Some 0" by code_simp
  have b: "status (objs ?w 0) = pending" by code_simp
  have c: "status (objs (exec True mixed_run ?w) 0) = completed" by code_simp
  have d: "map_option status (get_state (exec True mixed_run ?w) ''INV-2'') = Some completed"
    by code_simp
  from C6_forward_between_submissions [OF refl h1 h2] a
  have "approvals (exec True mixed_run ?w) ''INV-1'' = Some 0"
    and "forward (status (objs ?w 0)) (status (objs (exec True mixed_run ?w) 0))"
    by simp_all
  with h1 h2 a b c d show ?thesis by simp
qed

text \<open>
  C7. Status query: \<^verbatim>\<open>check_invoice_status\<close> throws the not-found error for an id that is
  not in the map, and otherwise returns, with the store unchanged, a text made of the id,
  the status, the total amount of the stored invoice and, when a result is recorded, that
  result at the end (after the heading \<^verbatim>\<open>Result:\<close> unless it is the empty string).
\<close>

theorem C7_status_query:
  "(approvals w i = None \<longrightarrow> check_invoice_status i w = (Inl (NotFound i), w))
   \<and> (approvals w i = Some r \<longrightarrow>
        check_invoice_status i w = (Inr (statusText i (objs w r)), w)
        \<and> statusText i (objs w r) =
            ''Invoice '' @ i @ '':\<newline>''
            @ ''Status: '' @ status_text (status (objs w r)) @ ''\<newline>''
            @ ''Total Amount: $'' @ toString (totalAmount (invoice (objs w r)))
            @ ''\<newline>''
            @ (case result (objs w r) of
                 None \<Rightarrow> []
               | Some s \<Rightarrow> if s = [] then [] else ''\<newline>Result:\<newline>'' @ s)
        \<and> (result (objs w r) = Some s \<longrightarrow> suffix s (statusText i (objs w r))))"
  by (simp add: check_invoice_status_def statusText_suffix) (simp add: statusText_def)

theorem C7_status_query_witness:
  "approvals (exec True approved_run initial) ''INV-2'' = None
   \<and> fst (check_invoice_status ''INV-2'' (exec True approved_run initial))
       = Inl (NotFound ''INV-2'')
   \<and> message (NotFound ''INV-2'') = ''Invoice INV-2 not found''
   \<and> approvals (exec True approved_run initial) ''INV-1'' = Some 0
   \<and> fst (check_invoice_status ''INV-1'' (exec True approved_run initial))
       = Inr ''Invoice INV-1:\<newline>Status: completed\<newline>Total Amount: $150\<newline>\<newline>Result:\<newline>COMPLETED\<newline>Processed payment for consulting: $100\<newline>Processed payment for expenses: $50''
   \<and> fst (check_invoice_status ''INV-1'' (exec True waiting_run initial))
       = Inr ''Invoice INV-1:\<newline>Status: pending\<newline>Total Amount: $150\<newline>''"
proof -
  let ?w = "exec True approved_run initial"
  let ?v = "exec True waiting_run initial"
  have h1: "approvals ?w ''INV-2'' = None" by code_simp
  have h2: "approvals ?w ''INV-1'' = Some 0" by code_simp
  have h3: "approvals ?v ''INV-1'' = Some 0" by code_simp
  have o: "status (objs ?w 0) = completed" "totalAmount (invoice (objs ?w 0)) = Fin 150"
    "result (objs ?w 0) = Some ''COMPLETED\<newline>Processed payment for consulting: $100\<newline>Processed payment for expenses: $50''"
    by code_simp+
  have v: "status (objs ?v 0) = pending" "totalAmount (invoice (objs ?v 0)) = Fin 150"
    "result (objs ?v 0) = None"
    by code_simp+
  from C7_status_query [of ?w "''INV-2''" 0] h1
  have a: "fst (check_invoice_status ''INV-2'' ?w) = Inl (NotFound ''INV-2'')" by simp
  from C7_status_query [of ?w "''INV-1''" 0] h2
  have b: "fst (check_invoice_status ''INV-1'' ?w)
       = Inr ''Invoice INV-1:\<newline>Status: completed\<newline>Total Amount: $150\<newline>\<newline>Result:\<newline>COMPLETED\<newline>Processed payment for consulting: $100\<newline>Processed payment for expenses: $50''"
    by (simp add: o toString_150)
  from C7_status_query [of ?v "''INV-1''" 0] h3
  have c: "fst (check_invoice_status ''INV-1'' ?v)
       = Inr ''Invoice INV-1:\<newline>Status: pending\<newline>Total Amount: $150\<newline>''"
    by (simp add: v toString_150)
  from a b c h1 h2 show ?thesis by simp
qed

text \<open>
  C8 as stated fails: the total that \<^verbatim>\<open>submit_invoice\<close> records and prints, and that
  \<^verbatim>\<open>check_invoice_status\<close> reports, is the result of adding the amounts from left to right
  in binary64 arithmetic (\<open>submit_invoice_total\<close>), and this is not always their sum. For
  the lines \<open>2\<^sup>5\<^sup>3\<close> and 1, whose sum is 9007199254740993, the total recorded and reported
  is 9007199254740992; for the lines 0.1 and 0.2 the total recorded is not the number 0.3,
  and it is reported as 0.30000000000000004.
\<close>

theorem C8_counterexample:
  "map amount [settlement, surcharge] = [Fin 9007199254740992, Fin 1]
   \<and> (9007199254740992 + 1 :: rat) = 9007199254740993
   \<and> get_state (snd (submit_invoice True ''INV-1'' [settlement, surcharge] initial)) ''INV-1'' =
       Some \<lparr>status = pending,
             invoice = \<lparr>inv_id = ''INV-1'', lines = [settlement, surcharge],
                        totalAmount = Fin 9007199254740992\<rparr>,
             result = None\<rparr>
   \<and> fst (submit_invoice True ''INV-1'' [settlement, surcharge] initial) =
       Inr ''Invoice INV-1 submitted for approval. Total: $9007199254740992\<newline>Use approve_invoice or reject_invoice to respond.''
   \<and> fst (check_invoice_status ''INV-1''
            (snd (submit_invoice True ''INV-1'' [settlement, surcharge] initial))) =
       Inr ''Invoice INV-1:\<newline>Status: pending\<newline>Total Amount: $9007199254740992\<newline>''
   \<and> toString (amount sticker) = ''0.1'' \<and> toString (amount stamp) = ''0.2''
   \<and> toString (fl (3 / 10)) = ''0.3''
   \<and> map_option (totalAmount \<circ> invoice)
        (get_state (snd (submit_invoice True ''INV-2'' [sticker, stamp] initial)) ''INV-2'')
       \<noteq> Some (fl (3 / 10))
   \<and> fst (submit_invoice True ''INV-2'' [sticker, stamp] initial) =
       Inr ''Invoice INV-2 submitted for approval. Total: $0.30000000000000004\<newline>Use approve_invoice or reject_invoice to respond.''
   \<and> fst (check_invoice_status ''INV-2''
            (snd (submit_invoice True ''INV-2'' [sticker, stamp] initial))) =
       Inr ''Invoice INV-2:\<newline>Status: pending\<newline>Total Amount: $0.30000000000000004\<newline>''"
proof -
  have a: "map amount [settlement, surcharge] = [Fin 9007199254740992, Fin 1]"
    by (simp add: settlement_def surcharge_def)
  have s1: "sum_amounts [settlement, surcharge] = Fin 9007199254740992" by code_simp
  have "toString (Fin (of_int 9007199254740992)) = show_int 9007199254740992"
    by (rule toString_int) simp
  moreover have "show_int 9007199254740992 = ''9007199254740992''" by code_simp
  ultimately have t1: "toString (Fin 9007199254740992) = ''9007199254740992''" by simp
  have p: "toString (amount sticker) = ''0.1''" "toString (amount stamp) = ''0.2''"
    "toString (fl (3 / 10)) = ''0.3''"
    by code_simp+
  have s2: "sum_amounts [sticker, stamp] = Fin (1351079888211149 / 4503599627370496)"
    by code_simp
  have n2: "Fin (1351079888211149 / 4503599627370496) \<noteq> fl (3 / 10)" by code_simp
  have t2: "toString (Fin (1351079888211149 / 4503599627370496)) = ''0.30000000000000004''"
    by code_simp
  note g1 = submit_invoice_total [of True "''INV-1''" "[settlement, surcharge]" initial]
  note g2 = submit_invoice_total [of True "''INV-2''" "[sticker, stamp]" initial]
  from g1 have c1:
    "get_state (snd (submit_invoice True ''INV-1'' [settlement, surcharge] initial)) ''INV-1'' =
       Some \<lparr>status = pending,
             invoice = \<lparr>inv_id = ''INV-1'', lines = [settlement, surcharge],
                        totalAmount = Fin 9007199254740992\<rparr>,
             result = None\<rparr>"
    "fst (submit_invoice True ''INV-1'' [settlement, surcharge] initial) =
       Inr ''Invoice INV-1 submitted for approval. Total: $9007199254740992\<newline>Use approve_invoice or reject_invoice to respond.''"
    "fst (check_invoice_status ''INV-1''
            (snd (submit_invoice True ''INV-1'' [settlement, surcharge] initial))) =
       Inr ''Invoice INV-1:\<newline>Status: pending\<newline>Total Amount: $9007199254740992\<newline>''"
    unfolding s1 t1 by simp_all
  from g2 have c2:
    "map_option (totalAmount \<circ> invoice)
        (get_state (snd (submit_invoice True ''INV-2'' [sticker, stamp] initial)) ''INV-2'')
       \<noteq> Some (fl (3 / 10))"
    "fst (submit_invoice True ''INV-2'' [sticker, stamp] initial) =
       Inr ''Invoice INV-2 submitted for approval. Total: $0.30000000000000004\<newline>Use approve_invoice or reject_invoice to respond.''"
    "fst (check_invoice_status ''INV-2''
            (snd (submit_invoice True ''INV-2'' [sticker, stamp] initial))) =
       Inr ''Invoice INV-2:\<newline>Status: pending\<newline>Total Amount: $0.30000000000000004\<newline>''"
    unfolding s2 t2 using n2 by simp_all
  from a c1 p c2 show ?thesis by simp
qed

text \<open>
  C8, as the code has it. When the amounts of the lines are integers and every partial sum
  of them, taken from the left, has a magnitude of at most \<open>2\<^sup>5\<^sup>3\<close>, the total that
  \<^verbatim>\<open>submit_invoice\<close> records in the stored invoice is the sum of the amounts, and the
  acknowledgement and \<^verbatim>\<open>check_invoice_status\<close> print that sum in decimal notation: lines of
  100 and 50 give the total 150.
\<close>

theorem C8_safe_integer_total:
  assumes "map amount ls = map (\<lambda>z. Fin (of_int z)) zs"
    and "list_all (\<lambda>ys. \<bar>sum_list ys\<bar> \<le> 2 ^ 53) (prefixes zs)"
  shows "get_state (snd (submit_invoice d i ls w)) i =
     Some \<lparr>status = pending,
           invoice = \<lparr>inv_id = i, lines = ls, totalAmount = Fin (of_int (sum_list zs))\<rparr>,
           result = None\<rparr>
   \<and> fst (submit_invoice d i ls w) =
       Inr (''Invoice '' @ i @ '' submitted for approval. Total: $''
            @ show_int (sum_list zs)
            @ ''\<newline>Use approve_invoice or reject_invoice to respond.'')
   \<and> fst (check_invoice_status i (snd (submit_invoice d i ls w))) =
       Inr (''Invoice '' @ i @ '':\<newline>Status: pending\<newline>Total Amount: $''
            @ show_int (sum_list zs) @ ''\<newline>'')"
proof -
  from assms(2) have b: "\<forall>ys\<in>set (prefixes zs). \<bar>sum_list ys\<bar> \<le> 2 ^ 53"
    by (simp add: list_all_iff)
  have "zs \<in> set (prefixes zs)" by (simp add: in_set_prefixes)
  with b have "\<bar>sum_list zs\<bar> \<le> 2 ^ 53" by blast
  then have t: "toString (Fin (of_int (sum_list zs))) = show_int (sum_list zs)"
    by (rule toString_int)
  have s: "sum_amounts ls = Fin (of_int (sum_list zs))"
    using assms(1) b by (rule sum_amounts_safe)
  from submit_invoice_total [of d i ls w] show ?thesis unfolding s t .
qed

theorem C8_safe_integer_total_witness:
  "map amount [consulting, expenses] = map (\<lambda>z. Fin (of_int z)) [100, 50]
   \<and> list_all (\<lambda>ys. \<bar>sum_list ys\<bar> \<le> 2 ^ 53) (prefixes [100, 50 :: int])
   \<and> get_state (snd (submit_invoice True ''INV-1'' [consulting, expenses] initial)) ''INV-1'' =
       Some \<lparr>status = pending,
             invoice = \<lparr>inv_id = ''INV-1'', lines = [consulting, expenses], totalAmount = Fin 150\<rparr>,
             result = None\<rparr>
   \<and> fst (submit_invoice True ''INV-1'' [consulting, expenses] initial) =
       Inr ''Invoice INV-1 submitted for approval. Total: $150\<newline>Use approve_invoice or reject_invoice to respond.''
   \<and> fst (check_invoice_status ''INV-1''
            (snd (submit_invoice True ''INV-1'' [consulting, expenses] initial))) =
       Inr ''Invoice INV-1:\<newline>Status: pending\<newline>Total Amount: $150\<newline>''"
proof -
  have h1: "map amount [consulting, expenses] = map (\<lambda>z. Fin (of_int z)) [100, 50]"
    by (simp add: consulting_def expenses_def)
  have h2: "list_all (\<lambda>ys. \<bar>sum_list ys\<bar> \<le> 2 ^ 53) (prefixes [100, 50 :: int])"
    by simp
  have d: "show_int 150 = ''150''" by code_simp
  from C8_safe_integer_total [OF h1 h2, of True "''INV-1''" initial] h1 h2
  show ?thesis by (simp add: d)
qed

text \<open>
  C9. Race between decision and timeout: an execution wakes up with the deadline elapsed
  while its entry is pending, and an approval arrives at the same moment. JavaScript runs
  the two one after the other. If the execution runs first, the entry becomes rejected, the
  execution returns \<^verbatim>\<open>REJECTED due to timeout\<close>, and the approval fails with the not-pending
  error and changes nothing. If the approval runs first, it succeeds, and the execution
  then takes the payment path: the entry is processing (completed when the invoice has no
  line) and the execution is in its payment loop (or has returned \<^verbatim>\<open>COMPLETED\<close>).
\<close>

theorem C9_race_resolution:
  assumes n: "n < length (workflows w)"
    and pc: "wf_pc (workflows w ! n) = Polling st"
    and late: "timeout \<le> now - st"
    and r: "approvals w (inv_id (wf_invoice (workflows w ! n))) = Some r"
    and p: "status (objs w r) = pending"
  shows "status (objs (step d (Resume n now) w) r) = rejected
     \<and> wf_pc (workflows (step d (Resume n now) w) ! n) = Returned ''REJECTED due to timeout''
     \<and> approve_invoice (inv_id (wf_invoice (workflows w ! n))) (step d (Resume n now) w)
         = (Inl (NotPending (inv_id (wf_invoice (workflows w ! n))) rejected),
            step d (Resume n now) w)
     \<and> fst (approve_invoice (inv_id (wf_invoice (workflows w ! n))) w)
         = Inr (''Invoice '' @ inv_id (wf_invoice (workflows w ! n))
                @ '' approved! Processing payments...'')
     \<and> status (objs (step d (Resume n now)
                       (snd (approve_invoice (inv_id (wf_invoice (workflows w ! n))) w))) r)
         = (if lines (wf_invoice (workflows w ! n)) = [] then completed else processing)
     \<and> wf_pc (workflows (step d (Resume n now)
                       (snd (approve_invoice (inv_id (wf_invoice (workflows w ! n))) w))) ! n)
         = (if lines (wf_invoice (workflows w ! n)) = [] then Returned ''COMPLETED\<newline>''
            else Paying r [] (lines (wf_invoice (workflows w ! n))))"
proof -
  let ?x = "workflows w ! n"
  let ?i = "inv_id (wf_invoice ?x)"
  let ?wt = "step d (Resume n now) w"
  let ?wa = "snd (approve_invoice ?i w)"
  have res: "resume now ?x w =
      (?x\<lparr>wf_pc := Returned ''REJECTED due to timeout''\<rparr>, set_status r rejected w)"
    using pc late r p by (simp add: resume_timeout_pending)
  have 1: "status (objs ?wt r) = rejected"
    using n res by (simp add: step_Resume_fields)
  have 2: "wf_pc (workflows ?wt ! n) = Returned ''REJECTED due to timeout''"
    using n res by (simp add: step_Resume_fields)
  have "approvals ?wt ?i = Some r" using n r by (simp add: step_Resume_fields)
  with 1 have 3: "approve_invoice ?i ?wt = (Inl (NotPending ?i rejected), ?wt)"
    by (simp add: approve_invoice_def)
  have ap: "approve_invoice ?i w =
      (Inr (''Invoice '' @ ?i @ '' approved! Processing payments...''), set_status r approved w)"
    using r p by (rule approve_pending)
  then have 4: "fst (approve_invoice ?i w) =
      Inr (''Invoice '' @ ?i @ '' approved! Processing payments...'')"
    by simp
  from ap have wa: "?wa = set_status r approved w" by simp
  have na: "n < length (workflows ?wa)" and xa: "workflows ?wa ! n = ?x"
    and ra: "approvals ?wa ?i = Some r" and sa: "status (objs ?wa r) = approved"
    using n r by (simp_all add: wa)
  have resa: "resume now ?x ?wa =
      (if lines (wf_invoice ?x) = [] then complete r [] ?x (set_status r processing ?wa)
       else (?x\<lparr>wf_pc := Paying r [] (lines (wf_invoice ?x))\<rparr>, set_status r processing ?wa))"
    using pc ra sa by (rule resume_approved)
  have 5: "status (objs (step d (Resume n now) ?wa) r) =
      (if lines (wf_invoice ?x) = [] then completed else processing)"
    using na xa resa by (simp add: step_Resume_fields complete_def)
  have 6: "wf_pc (workflows (step d (Resume n now) ?wa) ! n) =
      (if lines (wf_invoice ?x) = [] then Returned ''COMPLETED\<newline>''
       else Paying r [] (lines (wf_invoice ?x)))"
    using na xa resa by (simp add: step_Resume_fields complete_def)
  from 1 2 3 4 5 6 show ?thesis by blast
qed

theorem C9_race_resolution_witness:
  "status (objs (waiting pending) 0) = pending \<and> timeout \<le> 300000 - 0
   \<and> status (objs (step True (Resume 0 300000) (waiting pending)) 0) = rejected
   \<and> fst (approve_invoice ''INV-1'' (step True (Resume 0 300000) (waiting pending)))
       = Inl (NotPending ''INV-1'' rejected)
   \<and> fst (approve_invoice ''INV-1'' (waiting pending))
       = Inr ''Invoice INV-1 approved! Processing payments...''
   \<and> status (objs (step True (Resume 0 300000)
                     (snd (approve_invoice ''INV-1'' (waiting pending)))) 0) = processing
   \<and> wf_pc (workflows (step True (Resume 0 300000)
                     (snd (approve_invoice ''INV-1'' (waiting pending)))) ! 0)
       = Paying 0 [] [consulting, expenses]"
proof -
  have h1: "0 < length (workflows (waiting pending))" by (simp add: waiting_fields)
  have h2: "wf_pc (workflows (waiting pending) ! 0) = Polling 0" by (simp add: waiting_fields)
  have h3: "timeout \<le> 300000 - 0" by (simp add: timeout_def)
  have h4: "approvals (waiting pending) (inv_id (wf_invoice (workflows (waiting pending) ! 0)))
      = Some 0"
    by (simp add: waiting_fields inv1_fields)
  have h5: "status (objs (waiting pending) 0) = pending" by (simp add: waiting_fields)
  from C9_race_resolution [OF h1 h2 h3 h4 h5, of True] h3 h5 show ?thesis
    by (simp add: waiting_fields inv1_fields)
qed

text \<open>
  C10. The two rejections are told apart by the result string: an execution that observes
  a rejected entry while polling returns \<^verbatim>\<open>REJECTED by user\<close>, one that finds its entry
  pending at the deadline returns \<^verbatim>\<open>REJECTED due to timeout\<close>; the callback stores the
  string in the \<^verbatim>\<open>result\<close> field of the entry, whose status is rejected in both cases, and
  \<^verbatim>\<open>check_invoice_status\<close> prints it.
\<close>

theorem C10_rejection_reasons:
  assumes n: "n < length (workflows w)"
    and pc: "wf_pc (workflows w ! n) = Polling st"
    and r: "approvals w (inv_id (wf_invoice (workflows w ! n))) = Some r"
  shows "(status (objs w r) = rejected \<and> now - st < timeout \<longrightarrow>
            wf_pc (workflows (step d (Resume n now) w) ! n) = Returned ''REJECTED by user''
          \<and> get_state (exec d [Resume n now, Resume n now'] w)
                (inv_id (wf_invoice (workflows w ! n)))
              = Some ((objs w r)\<lparr>result := Some ''REJECTED by user''\<rparr>)
          \<and> fst (check_invoice_status (inv_id (wf_invoice (workflows w ! n)))
                  (exec d [Resume n now, Resume n now'] w)) =
             Inr (''Invoice '' @ inv_id (wf_invoice (workflows w ! n)) @ '':\<newline>''
                  @ ''Status: rejected\<newline>''
                  @ ''Total Amount: $'' @ toString (totalAmount (invoice (objs w r)))
                  @ ''\<newline>\<newline>Result:\<newline>REJECTED by user''))
       \<and> (status (objs w r) = pending \<and> timeout \<le> now - st \<longrightarrow>
            wf_pc (workflows (step d (Resume n now) w) ! n) = Returned ''REJECTED due to timeout''
          \<and> get_state (exec d [Resume n now, Resume n now'] w)
                (inv_id (wf_invoice (workflows w ! n)))
              = Some ((objs w r)\<lparr>status := rejected, result := Some ''REJECTED due to timeout''\<rparr>)
          \<and> fst (check_invoice_status (inv_id (wf_invoice (workflows w ! n)))
                  (exec d [Resume n now, Resume n now'] w)) =
             Inr (''Invoice '' @ inv_id (wf_invoice (workflows w ! n)) @ '':\<newline>''
                  @ ''Status: rejected\<newline>''
                  @ ''Total Amount: $'' @ toString (totalAmount (invoice (objs w r)))
                  @ ''\<newline>\<newline>Result:\<newline>REJECTED due to timeout''))"
proof (intro conjI impI)
  let ?x = "workflows w ! n"
  let ?i = "inv_id (wf_invoice ?x)"
  let ?w2 = "exec d [Resume n now, Resume n now'] w"
  assume a: "status (objs w r) = rejected \<and> now - st < timeout"
  with pc r have res: "resume now ?x w = (?x\<lparr>wf_pc := Returned ''REJECTED by user''\<rparr>, w)"
    by (simp add: resume_user_rejected)
  show "wf_pc (workflows (step d (Resume n now) w) ! n) = Returned ''REJECTED by user''"
    using n res by (simp add: step_Resume_fields)
  show "get_state ?w2 ?i = Some ((objs w r)\<lparr>result := Some ''REJECTED by user''\<rparr>)"
    using callback_state [OF n r res, of d now'] r by (simp add: get_state_def)
  show "fst (check_invoice_status ?i ?w2) =
      Inr (''Invoice '' @ ?i @ '':\<newline>'' @ ''Status: rejected\<newline>''
           @ ''Total Amount: $'' @ toString (totalAmount (invoice (objs w r)))
           @ ''\<newline>\<newline>Result:\<newline>REJECTED by user'')"
    using return_then_callback [OF n r res, of d now'] a by simp
next
  let ?x = "workflows w ! n"
  let ?i = "inv_id (wf_invoice ?x)"
  let ?w2 = "exec d [Resume n now, Resume n now'] w"
  assume a: "status (objs w r) = pending \<and> timeout \<le> now - st"
  with pc r have res: "resume now ?x w =
      (?x\<lparr>wf_pc := Returned ''REJECTED due to timeout''\<rparr>, set_status r rejected w)"
    by (simp add: resume_timeout_pending)
  show "wf_pc (workflows (step d (Resume n now) w) ! n) = Returned ''REJECTED due to timeout''"
    using n res by (simp add: step_Resume_fields)
  show "get_state ?w2 ?i =
      Some ((objs w r)\<lparr>status := rejected, result := Some ''REJECTED due to timeout''\<rparr>)"
    using callback_state [OF n r res, of d now'] r by (simp add: get_state_def)
  show "fst (check_invoice_status ?i ?w2) =
      Inr (''Invoice '' @ ?i @ '':\<newline>'' @ ''Status: rejected\<newline>''
           @ ''Total Amount: $'' @ toString (totalAmount (invoice (objs w r)))
           @ ''\<newline>\<newline>Result:\<newline>REJECTED due to timeout'')"
    using return_then_callback [OF n r res, of d now'] by simp
qed

theorem C10_rejection_reasons_witness:
  "status (objs (waiting rejected) 0) = rejected \<and> (1000::int) - 0 < timeout
   \<and> fst (check_invoice_status ''INV-1'' (exec True [Resume 0 1000, Resume 0 1001] (waiting rejected)))
      = Inr ''Invoice INV-1:\<newline>Status: rejected\<newline>Total Amount: $150\<newline>\<newline>Result:\<newline>REJECTED by user''
   \<and> status (objs (waiting pending) 0) = pending \<and> timeout \<le> 300000 - 0
   \<and> fst (check_invoice_status ''INV-1'' (exec True [Resume 0 300000, Resume 0 300001] (waiting pending)))
      = Inr ''Invoice INV-1:\<newline>Status: rejected\<newline>Total Amount: $150\<newline>\<newline>Result:\<newline>REJECTED due to timeout''"
proof -
  have h1: "\<And>s. 0 < length (workflows (waiting s))" by (simp add: waiting_fields)
  have h2: "\<And>s. wf_pc (workflows (waiting s) ! 0) = Polling 0" by (simp add: waiting_fields)
  have h3: "\<And>s. approvals (waiting s) (inv_id (wf_invoice (workflows (waiting s) ! 0))) = Some 0"
    by (simp add: waiting_fields inv1_fields)
  have a1: "status (objs (waiting rejected) 0) = rejected \<and> (1000::int) - 0 < timeout"
    by (simp add: waiting_fields timeout_def)
  have a2: "status (objs (waiting pending) 0) = pending \<and> timeout \<le> 300000 - 0"
    by (simp add: waiting_fields timeout_def)
  from C10_rejection_reasons [OF h1 h2 h3, of rejected 1000 True 1001] a1
  have b1: "fst (check_invoice_status ''INV-1'' (exec True [Resume 0 1000, Resume 0 1001] (waiting rejected)))
      = Inr ''Invoice INV-1:\<newline>Status: rejected\<newline>Total Amount: $150\<newline>\<newline>Result:\<newline>REJECTED by user''"
    by (simp add: waiting_fields inv1_fields toString_150)
  from C10_rejection_reasons [OF h1 h2 h3, of pending 300000 True 300001] a2
  have b2: "fst (check_invoice_status ''INV-1'' (exec True [Resume 0 300000, Resume 0 300001] (waiting pending)))
      = Inr ''Invoice INV-1:\<newline>Status: rejected\<newline>Total Amount: $150\<newline>\<newline>Result:\<newline>REJECTED due to timeout''"
    by (simp add: waiting_fields inv1_fields toString_150)
  from a1 a2 b1 b2 show ?thesis by blast
qed

end
